theory Spec2Isabelle
  imports Main
begin

section \<open>JavaScript string primitives used by the plugin\<close>

text \<open>
  Strings are lists of characters. The characters that \<^verbatim>\<open>String.prototype.trim\<close> and
  \<^verbatim>\<open>parseInt\<close> skip are the white space and line terminator code points; within the
  8-bit alphabet of \<^typ>\<open>char\<close> these are TAB, LF, VT, FF, CR, SPACE and NBSP.
  Code points above U+00FF are outside the alphabet of the model.
\<close>

definition isWhiteSpace :: "char \<Rightarrow> bool" where
  "isWhiteSpace c =
     (c \<in> set [CHR 0x09, CHR 0x0A, CHR 0x0B, CHR 0x0C, CHR 0x0D, CHR 0x20, CHR 0xA0])"

text \<open>\<^verbatim>\<open>s.trim()\<close>\<close>

definition trim :: "string \<Rightarrow> string" where
  "trim s = rev (dropWhile isWhiteSpace (rev (dropWhile isWhiteSpace s)))"

text \<open>\<^verbatim>\<open>s.startsWith(p)\<close>\<close>

definition startsWith :: "string \<Rightarrow> string \<Rightarrow> bool" where
  "startsWith s p = (take (length p) s = p)"

text \<open>\<^verbatim>\<open>s.includes(p)\<close>: \<open>p\<close> occurs somewhere in \<open>s\<close>.\<close>

fun includes_str :: "string \<Rightarrow> string \<Rightarrow> bool" where
  "includes_str [] p = (p = [])"
| "includes_str (c # cs) p = (startsWith (c # cs) p \<or> includes_str cs p)"

text \<open>\<^verbatim>\<open>s.slice(n)\<close> for a non-negative \<open>n\<close>.\<close>

definition slice :: "string \<Rightarrow> nat \<Rightarrow> string" where
  "slice s n = drop n s"

text \<open>
  \<^verbatim>\<open>s.split(sep)\<close> for a one-character separator: the result always has at least one
  part (\<^verbatim>\<open>"".split(",")\<close> is \<^verbatim>\<open>[""]\<close>).
\<close>

fun split :: "string \<Rightarrow> char \<Rightarrow> string list" where
  "split [] sep = [[]]"
| "split (c # cs) sep =
     (if c = sep then [] # split cs sep
      else (case split cs sep of
              [] \<Rightarrow> [[c]]
            | p # ps \<Rightarrow> (c # p) # ps))"

text \<open>
  JavaScript numbers as far as the parser produces them: \<^verbatim>\<open>NaN\<close>, or the number that
  \<^verbatim>\<open>parseInt\<close> makes of an integer numeral. \<open>Num n\<close> stands for the Number value of the
  integer \<open>n\<close>, the double nearest to it: that is \<open>n\<close> itself up to \<open>2^53\<close> in
  absolute value, beyond which several integers have one nearest double and the model
  does not identify them; \<open>0\<close> and \<open>-0\<close> are not told apart.
\<close>

datatype jsnum = NaN | Num int

definition isNaN :: "jsnum \<Rightarrow> bool" where
  "isNaN n = (n = NaN)"

definition isDigit :: "char \<Rightarrow> bool" where
  "isDigit c = ((48::nat) \<le> of_char c \<and> of_char c \<le> (57::nat))"

definition digitValue :: "char \<Rightarrow> int" where
  "digitValue c = of_char c - 48"

text \<open>The value of a string of decimal digits, most significant digit first.\<close>

definition decimalValue :: "string \<Rightarrow> int" where
  "decimalValue ds = foldl (\<lambda>acc c. 10 * acc + digitValue c) 0 ds"

text \<open>
  \<^verbatim>\<open>parseInt(s, 10)\<close>: skip leading white space, read an optional sign, then the
  longest run of decimal digits; no digit at all gives \<^verbatim>\<open>NaN\<close>, and whatever follows
  the digits is ignored.
\<close>

definition parseInt :: "string \<Rightarrow> jsnum" where
  "parseInt s =
     (let S = dropWhile isWhiteSpace s;
          sign = (case S of c # _ \<Rightarrow> (if c = CHR ''-'' then - 1 else 1) | [] \<Rightarrow> (1::int));
          S' = (case S of c # r \<Rightarrow> (if c = CHR ''-'' \<or> c = CHR ''+'' then r else S) | [] \<Rightarrow> S);
          Z = takeWhile isDigit S'
      in if Z = [] then NaN else Num (sign * decimalValue Z))"

section \<open>The record parser: \<^verbatim>\<open>parseNpcBlocks\<close>\<close>

text \<open>
  One event command of a page's list: its \<^verbatim>\<open>code\<close> (108 and 408 are the comment
  commands of the engine) and \<^verbatim>\<open>parameters[0]\<close>, the text of the comment.
\<close>

record command =
  code :: int
  parameters0 :: string

text \<open>
  The draft object \<^verbatim>\<open>npc\<close> of the parser, which is also the shape of a stored entry.
  The field \<^verbatim>\<open>id\<close> is called \<open>npc_id\<close> here (\<open>id\<close> is the identity function of HOL) and
  \<^verbatim>\<open>notes\<close> is called \<open>npc_notes\<close> (a reserved word of the theory language).
\<close>

record npc =
  typeIsNPC :: bool
  npc_id :: string
  name :: string
  category :: string
  faceName :: string
  faceIndex :: jsnum
  iconIndexes :: "jsnum list"
  npc_notes :: string

text \<open>The three variables the closure passed to \<^verbatim>\<open>forEach\<close> reads and writes.\<close>

record parser =
  results :: "npc list"
  draft :: "npc option"
  readingNote :: bool

definition newDraft :: npc where
  "newDraft = \<lparr>typeIsNPC = True, npc_id = [], name = [], category = [], faceName = [],
               faceIndex = Num 0, iconIndexes = [], npc_notes = []\<rparr>"

text \<open>
  \<^verbatim>\<open>wantedId\<close> is \<^verbatim>\<open>null\<close> (\<open>None\<close>) or a string. The test \<^verbatim>\<open>!wantedId\<close> holds for
  \<^verbatim>\<open>null\<close> and for the empty string, the falsy values among these.
\<close>

definition pushCurrent :: "string option \<Rightarrow> parser \<Rightarrow> parser" where
  "pushCurrent wantedId p =
     (case draft p of
        None \<Rightarrow> p
      | Some n \<Rightarrow>
          if typeIsNPC n \<and> name n \<noteq> [] \<and> npc_id n \<noteq> [] then
            (if (case wantedId of None \<Rightarrow> True | Some w \<Rightarrow> w = [] \<or> npc_id n = w)
             then p\<lparr>results := results p @ [n]\<rparr> else p)
          else p)"

text \<open>The field branches of the loop body, applied to the open draft.\<close>

definition setFace :: "string \<Rightarrow> npc \<Rightarrow> npc" where
  "setFace line n =
     (let parts = split (slice line 5) (CHR '','');
          fn = (case parts of [] \<Rightarrow> [] | a # _ \<Rightarrow> a);
          fi = (case parts of _ # b # _ \<Rightarrow> (if b = [] then ''0'' else b) | _ \<Rightarrow> ''0'')
      in n\<lparr>faceName := trim fn, faceIndex := parseInt fi\<rparr>)"

definition setIcon :: "string \<Rightarrow> npc \<Rightarrow> npc" where
  "setIcon line n =
     n\<lparr>iconIndexes :=
         take 3 (filter (\<lambda>k. \<not> isNaN k)
                   (map (\<lambda>s. parseInt (trim s)) (split (slice line 5) (CHR '',''))))\<rparr>"

text \<open>One call of the closure given to \<^verbatim>\<open>list.forEach\<close>.\<close>

definition parseCmd :: "string option \<Rightarrow> parser \<Rightarrow> command \<Rightarrow> parser" where
  "parseCmd wantedId p cmd =
     (if code cmd \<noteq> 108 \<and> code cmd \<noteq> 408 then p\<lparr>readingNote := False\<rparr>
      else
        let line = trim (parameters0 cmd) in
        if startsWith line ''Type:'' \<and> includes_str line ''NPC'' then
          (pushCurrent wantedId p)\<lparr>draft := Some newDraft, readingNote := False\<rparr>
        else
          (case draft p of
             None \<Rightarrow> p
           | Some n \<Rightarrow>
               if startsWith line ''ID:'' then p\<lparr>draft := Some (n\<lparr>npc_id := trim (slice line 3)\<rparr>)\<rparr>
               else if startsWith line ''Name:'' then p\<lparr>draft := Some (n\<lparr>name := trim (slice line 5)\<rparr>)\<rparr>
               else if startsWith line ''Category:'' then
                 p\<lparr>draft := Some (n\<lparr>category := trim (slice line 9)\<rparr>)\<rparr>
               else if startsWith line ''Face:'' then p\<lparr>draft := Some (setFace line n)\<rparr>
               else if startsWith line ''Icon:'' then p\<lparr>draft := Some (setIcon line n)\<rparr>
               else if startsWith line ''Details:'' then
                 p\<lparr>draft := Some (n\<lparr>npc_notes := trim (slice line 8)\<rparr>), readingNote := True\<rparr>
               else if readingNote p then
                 p\<lparr>draft := Some (n\<lparr>npc_notes := npc_notes n @ CHR 0x0A # line\<rparr>)\<rparr>
               else p))"

definition parseNpcBlocks :: "command list \<Rightarrow> string option \<Rightarrow> npc list" where
  "parseNpcBlocks list wantedId =
     results (pushCurrent wantedId
       (foldl (parseCmd wantedId) \<lparr>results = [], draft = None, readingNote = False\<rparr> list))"

section \<open>The registry: \<^verbatim>\<open>$gameSystem._personalList\<close> and its listeners\<close>

text \<open>
  An id handed to the public entry points is a number or a string. The number ids of
  the model are the safe integers (\<^verbatim>\<open>Number.isSafeInteger\<close>), the integers of
  absolute value below \<open>2^53\<close>: a double holds each of them exactly, and
  \<^verbatim>\<open>String(id)\<close> prints it in decimal notation, with a minus sign when it is negative.
  The other numbers (fractions, larger magnitudes, \<^verbatim>\<open>NaN\<close>, the infinities) are not
  values of the type.
\<close>

typedef safe_integer = "{n :: int. \<bar>n\<bar> < 2 ^ 53}"
  morphisms int_of SafeInteger
  by (rule exI[of _ 0]) simp

datatype idval = NumId safe_integer | StrId string

fun digits :: "nat \<Rightarrow> string" where
  "digits n =
     (if n < 10 then [char_of (48 + n)]
      else digits (n div 10) @ [char_of (48 + n mod 10)])"

declare digits.simps [simp del]

fun String :: "idval \<Rightarrow> string" where
  "String (StrId s) = s"
| "String (NumId n) =
     (if int_of n < 0 then CHR ''-'' # digits (nat (- int_of n)) else digits (nat (int_of n)))"

text \<open>
  The table \<^verbatim>\<open>_personalListeners\<close> is an object literal \<^verbatim>\<open>{}\<close>, and so is every entry
  \<^verbatim>\<open>L\<close> that a registration creates: a property that such an object does not have
  itself is read from \<^verbatim>\<open>Object.prototype\<close>, and two entries may hold the same array.
  The objects are therefore kept in a store, under references: \<^verbatim>\<open>Object.prototype\<close>;
  the function that \<^verbatim>\<open>Object.prototype\<close> holds under one of its own property names;
  the object \<^verbatim>\<open>{}\<close> created for a key of the table; the array \<^verbatim>\<open>[]\<close> created for the
  property \<^verbatim>\<open>added\<close> or \<^verbatim>\<open>removed\<close> of an object. An object is created for a key only
  when the table yields nothing under the key, and is then stored under the key for
  good; an array is created for a property of an object only when the object yields
  nothing for the property, and is then stored there for good: no reference is given
  to two objects.
\<close>

datatype propkey = PropAdded | PropRemoved

datatype ref = ObjectPrototype | Builtin string | Obj string | Arr ref propkey

fun propName :: "propkey \<Rightarrow> string" where
  "propName PropAdded = ''added''"
| "propName PropRemoved = ''removed''"

text \<open>
  The property names of \<^verbatim>\<open>Object.prototype\<close> whose values are functions (ECMAScript
  with its annex for web browsers, which the engine of RPG Maker MV implements); the
  accessor \<^verbatim>\<open>__proto__\<close> is treated apart.
\<close>

definition objectPrototypeNames :: "string list" where
  "objectPrototypeNames =
     [''constructor'', ''hasOwnProperty'', ''isPrototypeOf'', ''propertyIsEnumerable'',
      ''toLocaleString'', ''toString'', ''valueOf'', ''__defineGetter__'',
      ''__defineSetter__'', ''__lookupGetter__'', ''__lookupSetter__'']"

text \<open>
  The state the plugin commands and the API work on: \<^verbatim>\<open>_personalList\<close>
  (\<^verbatim>\<open>undefined\<close> until first used); the own properties of the table
  \<^verbatim>\<open>_personalListeners\<close>; the store, which gives the own properties \<^verbatim>\<open>added\<close> and
  \<^verbatim>\<open>removed\<close> of every object (\<open>own\<close>) and the elements of every array (\<open>elems\<close>);
  and two logs of what was done to the environment: \<open>fired\<close> records every call
  \<^verbatim>\<open>cb(id)\<close> in order, and \<open>loadedFaces\<close> every \<^verbatim>\<open>ImageManager.loadFace(name)\<close>.
  Callbacks are opaque: \<open>'cb\<close> names them, and a callback's own effect on the game is
  not part of the model.
\<close>

record 'cb game =
  personalList :: "npc list option"
  personalListeners :: "string \<rightharpoonup> ref"
  own :: "ref \<Rightarrow> propkey \<rightharpoonup> ref"
  elems :: "ref \<Rightarrow> 'cb list"
  fired :: "('cb \<times> string) list"
  loadedFaces :: "string list"

text \<open>What a JavaScript call evaluates to, for the functions whose value matters here.\<close>

datatype jsval = Undefined | Boolean bool

definition getPersonalList :: "'cb game \<Rightarrow> npc list \<times> 'cb game" where
  "getPersonalList g =
     (case personalList g of
        None \<Rightarrow> ([], g\<lparr>personalList := Some []\<rparr>)
      | Some l \<Rightarrow> (l, g))"

text \<open>
  The reads \<^verbatim>\<open>L.added\<close> and \<^verbatim>\<open>L.removed\<close>: the object's own property, and without one
  the property of \<^verbatim>\<open>Object.prototype\<close>, where the prototype chain of every other object
  of the store ends (nothing between has such a property).
\<close>

definition getProp :: "'cb game \<Rightarrow> ref \<Rightarrow> propkey \<Rightarrow> ref option" where
  "getProp g r p =
     (case own g r p of
        Some a \<Rightarrow> Some a
      | None \<Rightarrow> if r = ObjectPrototype then None else own g ObjectPrototype p)"

text \<open>
  The read \<^verbatim>\<open>Object.prototype[id]\<close>, for an id other than \<^verbatim>\<open>__proto__\<close>: one of its
  functions, or a property \<^verbatim>\<open>added\<close> or \<^verbatim>\<open>removed\<close> that a registration gave it.
\<close>

definition prototypeProperty :: "'cb game \<Rightarrow> string \<Rightarrow> ref option" where
  "prototypeProperty g k =
     (if k \<in> set objectPrototypeNames then Some (Builtin k)
      else if k = ''added'' then own g ObjectPrototype PropAdded
      else if k = ''removed'' then own g ObjectPrototype PropRemoved
      else None)"

text \<open>
  The read \<^verbatim>\<open>this._personalListeners[id]\<close>: \<^verbatim>\<open>__proto__\<close> yields the prototype of the
  table, which is \<^verbatim>\<open>Object.prototype\<close>; any other key yields the table's own property,
  and without one the property of \<^verbatim>\<open>Object.prototype\<close>.
\<close>

definition lookupListeners :: "'cb game \<Rightarrow> string \<Rightarrow> ref option" where
  "lookupListeners g k =
     (if k = ''__proto__'' then Some ObjectPrototype
      else case personalListeners g k of
             Some r \<Rightarrow> Some r
           | None \<Rightarrow> prototypeProperty g k)"

text \<open>
  The write \<^verbatim>\<open>this._personalListeners[id] = L\<close>: under \<^verbatim>\<open>__proto__\<close> it sets the
  prototype of the table to \<^verbatim>\<open>L\<close>, which is the prototype it has (\<^verbatim>\<open>L\<close> was read from
  there); under any other key it sets the table's own property.
\<close>

definition storeListeners :: "string \<Rightarrow> ref \<Rightarrow> 'cb game \<Rightarrow> 'cb game" where
  "storeListeners k L g =
     (if k = ''__proto__'' then g else g\<lparr>personalListeners := (personalListeners g)(k \<mapsto> L)\<rparr>)"

text \<open>The literals \<^verbatim>\<open>{}\<close> and \<^verbatim>\<open>[]\<close>: an object with no property, an array with no element.\<close>

definition newObject :: "ref \<Rightarrow> 'cb game \<Rightarrow> 'cb game" where
  "newObject r g = g\<lparr>own := (own g)(r := Map.empty)\<rparr>"

definition newArray :: "ref \<Rightarrow> 'cb game \<Rightarrow> 'cb game" where
  "newArray r g = g\<lparr>own := (own g)(r := Map.empty), elems := (elems g)(r := [])\<rparr>"

definition triggerPersonalAdded :: "idval \<Rightarrow> 'cb game \<Rightarrow> 'cb game" where
  "triggerPersonalAdded i g =
     (let k = String i in
      case lookupListeners g k of
        None \<Rightarrow> g
      | Some L \<Rightarrow>
          (case getProp g L PropAdded of
             None \<Rightarrow> g
           | Some a \<Rightarrow> g\<lparr>fired := fired g @ map (\<lambda>cb. (cb, k)) (elems g a)\<rparr>))"

definition triggerPersonalRemoved :: "idval \<Rightarrow> 'cb game \<Rightarrow> 'cb game" where
  "triggerPersonalRemoved i g =
     (let k = String i in
      case lookupListeners g k of
        None \<Rightarrow> g
      | Some L \<Rightarrow>
          (case getProp g L PropRemoved of
             None \<Rightarrow> g
           | Some a \<Rightarrow> g\<lparr>fired := fired g @ map (\<lambda>cb. (cb, k)) (elems g a)\<rparr>))"

definition onPersonalAdded :: "idval \<Rightarrow> 'cb \<Rightarrow> 'cb game \<Rightarrow> 'cb game" where
  "onPersonalAdded i callback g =
     (let k = String i;
          (L, g1) = (case lookupListeners g k of
                       Some r \<Rightarrow> (r, g)
                     | None \<Rightarrow> (Obj k, newObject (Obj k) g));
          g2 = storeListeners k L g1;
          (a, g3) = (case getProp g2 L PropAdded of
                       Some a0 \<Rightarrow> (a0, g2)
                     | None \<Rightarrow> (Arr L PropAdded, newArray (Arr L PropAdded) g2));
          g4 = g3\<lparr>own := (own g3)(L := (own g3 L)(PropAdded \<mapsto> a))\<rparr>
      in g4\<lparr>elems := (elems g4)(a := elems g4 a @ [callback])\<rparr>)"

definition onPersonalRemoved :: "idval \<Rightarrow> 'cb \<Rightarrow> 'cb game \<Rightarrow> 'cb game" where
  "onPersonalRemoved i callback g =
     (let k = String i;
          (L, g1) = (case lookupListeners g k of
                       Some r \<Rightarrow> (r, g)
                     | None \<Rightarrow> (Obj k, newObject (Obj k) g));
          g2 = storeListeners k L g1;
          (a, g3) = (case getProp g2 L PropRemoved of
                       Some a0 \<Rightarrow> (a0, g2)
                     | None \<Rightarrow> (Arr L PropRemoved, newArray (Arr L PropRemoved) g2));
          g4 = g3\<lparr>own := (own g3)(L := (own g3 L)(PropRemoved \<mapsto> a))\<rparr>
      in g4\<lparr>elems := (elems g4)(a := elems g4 a @ [callback])\<rparr>)"

definition isPersonalAdded :: "idval \<Rightarrow> 'cb game \<Rightarrow> bool" where
  "isPersonalAdded i g =
     (let list = (case personalList g of None \<Rightarrow> [] | Some l \<Rightarrow> l)
      in list_ex (\<lambda>item. npc_id item = String i) list)"

text \<open>
  \<^verbatim>\<open>Object.assign(existing, npc)\<close> where \<^verbatim>\<open>existing\<close> is what \<^verbatim>\<open>list.find\<close> returned,
  the first entry that satisfies the test: that entry takes every field of \<^verbatim>\<open>npc\<close>,
  where it stands.
\<close>

fun assignFirst :: "(npc \<Rightarrow> bool) \<Rightarrow> npc \<Rightarrow> npc list \<Rightarrow> npc list" where
  "assignFirst P n [] = []"
| "assignFirst P n (x # xs) = (if P x then n # xs else x # assignFirst P n xs)"

text \<open>The closure \<^verbatim>\<open>upsert\<close> of the command \<^verbatim>\<open>AddPersonalToList\<close>.\<close>

definition upsert :: "npc \<Rightarrow> 'cb game \<Rightarrow> 'cb game" where
  "upsert n g =
     (let (list, g1) = getPersonalList g;
          g2 = (case find (\<lambda>i. npc_id i = npc_id n) list of
                  Some existing \<Rightarrow>
                    g1\<lparr>personalList := Some (assignFirst (\<lambda>i. npc_id i = npc_id n) n list)\<rparr>
                | None \<Rightarrow>
                    triggerPersonalAdded (StrId (npc_id n))
                      (g1\<lparr>personalList := Some (list @ [n])\<rparr>))
      in if faceName n \<noteq> [] then g2\<lparr>loadedFaces := loadedFaces g2 @ [faceName n]\<rparr> else g2)"

text \<open>
  The closure \<^verbatim>\<open>removeId\<close> of the command \<^verbatim>\<open>RemovePersonalFromList\<close>. Its body has no
  \<^verbatim>\<open>return\<close>, so a call evaluates to \<^verbatim>\<open>undefined\<close>. The source's \<^verbatim>\<open>before\<close> is
  \<open>before0\<close> here.
\<close>

definition removeId :: "idval \<Rightarrow> 'cb game \<Rightarrow> jsval \<times> 'cb game" where
  "removeId idToDel g =
     (let k = String idToDel;
          (l0, g1) = getPersonalList g;
          before0 = length l0;
          (l1, g2) = getPersonalList g1;
          g3 = g2\<lparr>personalList := Some (filter (\<lambda>i. npc_id i \<noteq> k) l1)\<rparr>;
          (l2, g4) = getPersonalList g3
      in (Undefined,
          if length l2 \<noteq> before0 then triggerPersonalRemoved (StrId k) g4 else g4))"

text \<open>
  The game at the start of a session: no list yet, a table and an
  \<^verbatim>\<open>Object.prototype\<close> without listeners, nothing logged.
\<close>

definition newGame :: "'cb game" where
  "newGame = \<lparr>personalList = None, personalListeners = Map.empty, own = (\<lambda>r. Map.empty),
              elems = (\<lambda>r. []), fired = [], loadedFaces = []\<rparr>"

text \<open>A sequence of registry operations, applied from left to right.\<close>

datatype registry_op = Upsert npc | Remove idval

fun applyOp :: "'cb game \<Rightarrow> registry_op \<Rightarrow> 'cb game" where
  "applyOp g (Upsert n) = upsert n g"
| "applyOp g (Remove i) = snd (removeId i g)"

definition entries :: "'cb game \<Rightarrow> npc list" where
  "entries g = (case personalList g of None \<Rightarrow> [] | Some l \<Rightarrow> l)"

text \<open>
  A session as the sequence of its calls: the two registrations of the API and the
  two closures of the plugin commands, applied from left to right.
\<close>

datatype 'cb api_call =
    OnPersonalAdded idval 'cb
  | OnPersonalRemoved idval 'cb
  | AddPersonalToList npc
  | RemovePersonalFromList idval

fun applyCall :: "'cb game \<Rightarrow> 'cb api_call \<Rightarrow> 'cb game" where
  "applyCall g (OnPersonalAdded i cb) = onPersonalAdded i cb g"
| "applyCall g (OnPersonalRemoved i cb) = onPersonalRemoved i cb g"
| "applyCall g (AddPersonalToList n) = upsert n g"
| "applyCall g (RemovePersonalFromList i) = snd (removeId i g)"

section \<open>The paginator: \<^verbatim>\<open>Window_PersonalDesc\<close>\<close>

text \<open>
  The measure \<^verbatim>\<open>this.textWidth\<close> and the width \<^verbatim>\<open>maxW\<close> come from the engine's window;
  they are parameters, over any linearly ordered type of widths.
  The body of the loop over \<^verbatim>\<open>words\<close>, on the pair of \<^verbatim>\<open>lines\<close> and \<^verbatim>\<open>cur\<close>. The array
  \<^verbatim>\<open>lines\<close> starts as \<^verbatim>\<open>[""]\<close> and only grows, so its last index exists.
\<close>

definition wrapStep ::
  "(string \<Rightarrow> 'w::linorder) \<Rightarrow> 'w \<Rightarrow> string list \<times> string \<Rightarrow> string \<Rightarrow> string list \<times> string" where
  "wrapStep textWidth maxW st w =
     (case st of (lines, cur) \<Rightarrow>
        let test = cur @ w @ '' '' in
        if textWidth test > maxW \<and> cur \<noteq> [] then (lines @ [w @ '' ''], w @ '' '')
        else (lines[length lines - 1 := test], test))"

definition wrapLines :: "(string \<Rightarrow> 'w::linorder) \<Rightarrow> 'w \<Rightarrow> string \<Rightarrow> string list" where
  "wrapLines textWidth maxW text =
     fst (foldl (wrapStep textWidth maxW) ([[]], []) (split text (CHR '' '')))"

text \<open>
  Heights are whole pixels, and the line height is positive (the engine's is 36), so
  that \<^verbatim>\<open>Math.floor(contentsHeight / lh)\<close> is the integer quotient rounded down.
\<close>

definition linesPerPage :: "int \<Rightarrow> int \<Rightarrow> int" where
  "linesPerPage contentsHeight lh = max 1 (contentsHeight div lh - 1)"

text \<open>\<^verbatim>\<open>lines.slice(a, b)\<close> for \<open>0 \<le> a \<le> b\<close>.\<close>

definition sliceArr :: "'a list \<Rightarrow> nat \<Rightarrow> nat \<Rightarrow> 'a list" where
  "sliceArr xs a b = take (b - a) (drop a xs)"

text \<open>
  The loop \<^verbatim>\<open>for (let i = 0; i < totalLines; i += linesPerPage)\<close>, which ends only if
  the step is positive: not returning is the value \<open>None\<close>.
\<close>

partial_function (option) pagesLoop ::
  "string list \<Rightarrow> nat \<Rightarrow> nat \<Rightarrow> string list list \<Rightarrow> string list list option" where
  "pagesLoop lines n i pages =
     (if i < length lines then pagesLoop lines n (i + n) (pages @ [sliceArr lines i (i + n)])
      else Some pages)"

declare pagesLoop.simps [code]

text \<open>
  The window's \<^verbatim>\<open>_pages\<close> and \<^verbatim>\<open>_pageIdx\<close>. \<^verbatim>\<open>setText\<close> is the word wrap followed by
  the pagination of the wrapped lines; \<open>paginate\<close> is that second half, from
  \<^verbatim>\<open>totalLines\<close> on.
\<close>

record descWindow =
  pages :: "string list list"
  pageIdx :: nat

definition paginate :: "string list \<Rightarrow> int \<Rightarrow> int \<Rightarrow> descWindow option" where
  "paginate lines contentsHeight lh =
     map_option (\<lambda>ps. \<lparr>pages = ps, pageIdx = 0\<rparr>)
       (pagesLoop lines (nat (linesPerPage contentsHeight lh)) 0 [])"

definition setText ::
  "(string \<Rightarrow> 'w::linorder) \<Rightarrow> 'w \<Rightarrow> int \<Rightarrow> int \<Rightarrow> string \<Rightarrow> descWindow option" where
  "setText textWidth maxW contentsHeight lh text =
     paginate (wrapLines textWidth maxW text) contentsHeight lh"

text \<open>\<^verbatim>\<open>refresh\<close> draws the page indicator under the test \<^verbatim>\<open>this._pages.length > 1\<close>.\<close>

definition footerShown :: "descWindow \<Rightarrow> bool" where
  "footerShown w = (length (pages w) > 1)"

section \<open>Vocabulary for the statements\<close>

text \<open>
  The tests of the loop body of the parser, named: a comment command, the line the
  parser looks at, and the kinds of line it tells apart.
\<close>

definition isComment :: "command \<Rightarrow> bool" where
  "isComment cmd = (code cmd = 108 \<or> code cmd = 408)"

definition lineOf :: "command \<Rightarrow> string" where
  "lineOf cmd = trim (parameters0 cmd)"

definition isTypeLine :: "command \<Rightarrow> bool" where
  "isTypeLine cmd =
     (isComment cmd \<and> startsWith (lineOf cmd) ''Type:'' \<and> includes_str (lineOf cmd) ''NPC'')"

definition isIdLine :: "command \<Rightarrow> bool" where
  "isIdLine cmd = (isComment cmd \<and> startsWith (lineOf cmd) ''ID:'')"

text \<open>A comment line with one of the five prefixes that set a field other than the notes.\<close>

definition isFieldLine :: "command \<Rightarrow> bool" where
  "isFieldLine cmd =
     (isComment cmd \<and> \<not> isTypeLine cmd \<and>
      list_ex (startsWith (lineOf cmd)) [''ID:'', ''Name:'', ''Category:'', ''Face:'', ''Icon:''])"

text \<open>A comment line that no branch of the parser recognises.\<close>

definition isPlainLine :: "command \<Rightarrow> bool" where
  "isPlainLine cmd =
     (isComment cmd \<and> \<not> isTypeLine cmd \<and>
      \<not> list_ex (startsWith (lineOf cmd))
           [''ID:'', ''Name:'', ''Category:'', ''Face:'', ''Icon:'', ''Details:''])"

text \<open>A comment command with the given text.\<close>

definition comment :: "string \<Rightarrow> command" where
  "comment s = \<lparr>code = 108, parameters0 = s\<rparr>"

text \<open>What \<^verbatim>\<open>pushCurrent\<close> asks of a draft before it pushes it.\<close>

definition emitted_ok :: "string option \<Rightarrow> npc \<Rightarrow> bool" where
  "emitted_ok wantedId r =
     (typeIsNPC r \<and> name r \<noteq> [] \<and> npc_id r \<noteq> [] \<and>
      (case wantedId of None \<Rightarrow> True | Some w \<Rightarrow> w = [] \<or> npc_id r = w))"

text \<open>A parser state with the results \<open>rs\<close> and an open draft that has no id yet.\<close>

definition idless :: "npc list \<Rightarrow> parser \<Rightarrow> bool" where
  "idless rs q = (results q = rs \<and> (\<exists>d. draft q = Some d \<and> npc_id d = []))"

text \<open>
  The callbacks that an event for an id calls, in the order of the calls: the elements
  of the array that \<^verbatim>\<open>L.added\<close> (or \<^verbatim>\<open>L.removed\<close>) yields, for the object \<^verbatim>\<open>L\<close> that the
  table yields for the id; none when either read yields nothing.
\<close>

definition addedCallbacks :: "'cb game \<Rightarrow> string \<Rightarrow> 'cb list" where
  "addedCallbacks g k =
     (case lookupListeners g k of
        None \<Rightarrow> []
      | Some L \<Rightarrow> (case getProp g L PropAdded of None \<Rightarrow> [] | Some a \<Rightarrow> elems g a))"

definition removedCallbacks :: "'cb game \<Rightarrow> string \<Rightarrow> 'cb list" where
  "removedCallbacks g k =
     (case lookupListeners g k of
        None \<Rightarrow> []
      | Some L \<Rightarrow> (case getProp g L PropRemoved of None \<Rightarrow> [] | Some a \<Rightarrow> elems g a))"

text \<open>
  The callbacks that the calls of a session register for an id, in the order of their
  registration: under \<^verbatim>\<open>onPersonalAdded\<close>, and under \<^verbatim>\<open>onPersonalRemoved\<close>.
\<close>

fun registration :: "propkey \<Rightarrow> string \<Rightarrow> 'cb api_call \<Rightarrow> 'cb list" where
  "registration p k (OnPersonalAdded i cb) = (if p = PropAdded \<and> String i = k then [cb] else [])"
| "registration p k (OnPersonalRemoved i cb) = (if p = PropRemoved \<and> String i = k then [cb] else [])"
| "registration p k (AddPersonalToList n) = []"
| "registration p k (RemovePersonalFromList i) = []"

definition registeredAdded :: "'cb api_call list \<Rightarrow> string \<Rightarrow> 'cb list" where
  "registeredAdded calls k = concat (map (registration PropAdded k) calls)"

definition registeredRemoved :: "'cb api_call list \<Rightarrow> string \<Rightarrow> 'cb list" where
  "registeredRemoved calls k = concat (map (registration PropRemoved k) calls)"

text \<open>
  A state in which nothing has been registered yet: the table and the objects of the
  store have no property. Its list and its logs are any.
\<close>

definition pristine :: "'cb game \<Rightarrow> bool" where
  "pristine g = (personalListeners g = Map.empty \<and> own g = (\<lambda>r. Map.empty))"

text \<open>
  The two registrations, and the two reads of the callbacks, differ in the property
  only: here they are for either property, for the proofs.
\<close>

definition registerCallback :: "propkey \<Rightarrow> idval \<Rightarrow> 'cb \<Rightarrow> 'cb game \<Rightarrow> 'cb game" where
  "registerCallback p i callback g =
     (let k = String i;
          (L, g1) = (case lookupListeners g k of
                       Some r \<Rightarrow> (r, g)
                     | None \<Rightarrow> (Obj k, newObject (Obj k) g));
          g2 = storeListeners k L g1;
          (a, g3) = (case getProp g2 L p of
                       Some a0 \<Rightarrow> (a0, g2)
                     | None \<Rightarrow> (Arr L p, newArray (Arr L p) g2));
          g4 = g3\<lparr>own := (own g3)(L := (own g3 L)(p \<mapsto> a))\<rparr>
      in g4\<lparr>elems := (elems g4)(a := elems g4 a @ [callback])\<rparr>)"

definition callbacksOf :: "propkey \<Rightarrow> 'cb game \<Rightarrow> string \<Rightarrow> 'cb list" where
  "callbacksOf p g k =
     (case lookupListeners g k of
        None \<Rightarrow> []
      | Some L \<Rightarrow> (case getProp g L p of None \<Rightarrow> [] | Some a \<Rightarrow> elems g a))"

text \<open>
  The stores of the sessions that register nothing for the property \<open>p\<close> under
  \<^verbatim>\<open>__proto__\<close>: \<^verbatim>\<open>Object.prototype\<close> has no property \<open>p\<close>; the property \<open>p\<close> of an
  object is the array created for it; every property is an array created for that
  property; and the table holds, under a key, the object created for the key, the
  function that \<^verbatim>\<open>Object.prototype\<close> has under it, or, under the name of the other
  property, the array that \<^verbatim>\<open>Object.prototype\<close> has there.
\<close>

definition entryFor :: "propkey \<Rightarrow> 'cb game \<Rightarrow> string \<Rightarrow> ref \<Rightarrow> bool" where
  "entryFor p g k r =
     (r = Obj k \<or> r = Builtin k \<or>
      (\<exists>q. q \<noteq> p \<and> k = propName q \<and> r = Arr ObjectPrototype q \<and>
           own g ObjectPrototype q = Some r))"

definition sep :: "propkey \<Rightarrow> 'cb game \<Rightarrow> bool" where
  "sep p g =
     (own g ObjectPrototype p = None \<and>
      (\<forall>r a. own g r p = Some a \<longrightarrow> a = Arr r p) \<and>
      (\<forall>r q a. own g r q = Some a \<longrightarrow> (\<exists>r'. a = Arr r' q)) \<and>
      (\<forall>q a. own g ObjectPrototype q = Some a \<longrightarrow> a = Arr ObjectPrototype q) \<and>
      (\<forall>k r. personalListeners g k = Some r \<longrightarrow> entryFor p g k r))"

text \<open>
  A line of the word wrap as its words: each word is followed by one space. The loop
  of the word wrap, seen on the words of each line rather than on the lines' text:
\<close>

definition lineOfWords :: "string list \<Rightarrow> string" where
  "lineOfWords ws = concat (map (\<lambda>w. w @ '' '') ws)"

definition groupStep ::
  "(string \<Rightarrow> 'w::linorder) \<Rightarrow> 'w \<Rightarrow> string list list \<Rightarrow> string \<Rightarrow> string list list" where
  "groupStep textWidth maxW gs w =
     (if textWidth (lineOfWords (last gs @ [w])) > maxW \<and> last gs \<noteq> [] then gs @ [[w]]
      else butlast gs @ [last gs @ [w]])"

text \<open>The groups the loop keeps: there is a group, and only the last may be empty.\<close>

definition groups_ok :: "string list list \<Rightarrow> bool" where
  "groups_ok gs = (gs \<noteq> [] \<and> (\<forall>g\<in>set (butlast gs). g \<noteq> []))"

text \<open>A word wider than the line has its group to itself.\<close>

definition wide_alone :: "(string \<Rightarrow> 'w::linorder) \<Rightarrow> 'w \<Rightarrow> string list list \<Rightarrow> bool" where
  "wide_alone tw maxW gs = (\<forall>g\<in>set gs. \<forall>v\<in>set g. maxW < tw (v @ '' '') \<longrightarrow> g = [v])"

text \<open>
  The pages in closed form: page \<open>k\<close> holds the \<open>n\<close> lines from line \<open>k * n\<close> on, as
  far as there are any, and there are as many pages as the lines need.
\<close>

definition pagesOf :: "nat \<Rightarrow> string list \<Rightarrow> string list list" where
  "pagesOf n lines = map (\<lambda>k. take n (drop (k * n) lines)) [0..<(length lines + n - 1) div n]"

section \<open>The parser emits complete drafts only\<close>

lemma pushCurrent_results_ok:
  "\<forall>r\<in>set (results p). emitted_ok w r \<Longrightarrow>
   \<forall>r\<in>set (results (pushCurrent w p)). emitted_ok w r"
  by (auto simp: pushCurrent_def emitted_ok_def split: option.splits)

lemma parseCmd_results_ok:
  "\<forall>r\<in>set (results p). emitted_ok w r \<Longrightarrow>
   \<forall>r\<in>set (results (parseCmd w p c)). emitted_ok w r"
  using pushCurrent_results_ok[of p w]
  by (simp add: parseCmd_def Let_def split: option.splits)

lemma foldl_parseCmd_results_ok:
  "\<forall>r\<in>set (results p). emitted_ok w r \<Longrightarrow>
   \<forall>r\<in>set (results (foldl (parseCmd w) p cs)). emitted_ok w r"
proof (induction cs arbitrary: p)
  case Nil
  then show ?case by simp
next
  case (Cons c cs)
  have "\<forall>r\<in>set (results (parseCmd w p c)). emitted_ok w r"
    using Cons.prems by (rule parseCmd_results_ok)
  then show ?case using Cons.IH by simp
qed

lemma parseNpcBlocks_ok: "r \<in> set (parseNpcBlocks list w) \<Longrightarrow> emitted_ok w r"
proof -
  have "\<forall>r\<in>set (results (foldl (parseCmd w)
           \<lparr>results = [], draft = None, readingNote = False\<rparr> list)). emitted_ok w r"
    by (rule foldl_parseCmd_results_ok) simp
  then have "\<forall>r\<in>set (parseNpcBlocks list w). emitted_ok w r"
    unfolding parseNpcBlocks_def by (rule pushCurrent_results_ok)
  then show "r \<in> set (parseNpcBlocks list w) \<Longrightarrow> emitted_ok w r" by blast
qed

lemma parseCmd_type:
  "isTypeLine t \<Longrightarrow>
   parseCmd w p t = (pushCurrent w p)\<lparr>draft := Some newDraft, readingNote := False\<rparr>"
  by (auto simp: parseCmd_def isTypeLine_def isComment_def lineOf_def Let_def)

lemma parseCmd_idless:
  "idless rs q \<Longrightarrow> \<not> isTypeLine c \<Longrightarrow> \<not> isIdLine c \<Longrightarrow> idless rs (parseCmd w q c)"
  by (auto simp: idless_def parseCmd_def isTypeLine_def isIdLine_def isComment_def lineOf_def
      Let_def setFace_def setIcon_def)

lemma foldl_idless:
  "idless rs q \<Longrightarrow> \<forall>c\<in>set body. \<not> isTypeLine c \<and> \<not> isIdLine c \<Longrightarrow>
   idless rs (foldl (parseCmd w) q body)"
  by (induction body arbitrary: q) (simp_all add: parseCmd_idless)

lemma pushCurrent_idless: "idless rs q \<Longrightarrow> pushCurrent w q = q"
  by (auto simp: idless_def pushCurrent_def)

text \<open>
  A block that never sets an id leaves no trace once it is closed, by the end of the
  input or by the \<^verbatim>\<open>Type:\<close> line of the next block.
\<close>

lemma block_without_id:
  assumes t: "isTypeLine t"
    and body: "\<forall>c\<in>set body. \<not> isTypeLine c \<and> \<not> isIdLine c"
    and post: "post = [] \<or> isTypeLine (hd post)"
  shows "results (pushCurrent w (foldl (parseCmd w) p (t # body @ post)))
       = results (pushCurrent w (foldl (parseCmd w) p post))"
proof -
  define q where "q = foldl (parseCmd w) (parseCmd w p t) body"
  have "idless (results (pushCurrent w p)) (parseCmd w p t)"
    by (simp add: parseCmd_type[OF t] idless_def newDraft_def)
  then have q: "idless (results (pushCurrent w p)) q"
    unfolding q_def using body by (rule foldl_idless)
  show ?thesis
  proof (cases post)
    case Nil
    then show ?thesis using q pushCurrent_idless[OF q, of w]
      by (simp add: q_def[symmetric] idless_def)
  next
    case (Cons t' post')
    with post have t': "isTypeLine t'" by simp
    have "parseCmd w q t' = parseCmd w p t'"
      using q by (simp add: parseCmd_type[OF t'] pushCurrent_idless[OF q] idless_def)
    then show ?thesis by (simp add: Cons q_def[symmetric])
  qed
qed

lemma pushCurrent_empty_wanted: "pushCurrent (Some []) p = pushCurrent None p"
  by (cases "draft p") (simp_all add: pushCurrent_def)

lemma parseCmd_empty_wanted: "parseCmd (Some []) = parseCmd None"
  unfolding parseCmd_def pushCurrent_empty_wanted by (rule refl)

text \<open>
  Claim C1, as the code has it. Every record that \<^verbatim>\<open>parseNpcBlocks\<close> returns was marked
  NPC-type and has a non-empty name and a non-empty id, and when a non-empty
  \<^verbatim>\<open>wantedId\<close> is given its id is \<^verbatim>\<open>wantedId\<close>. A block (a \<^verbatim>\<open>Type: NPC\<close> line and the
  lines up to the next such line or the end of the input) with no \<^verbatim>\<open>ID:\<close> line yields
  no record, whatever else it holds: the result is that of the input without the
  block. The empty string as \<^verbatim>\<open>wantedId\<close> filters nothing, as \<^verbatim>\<open>null\<close> does.
\<close>

theorem parseNpcBlocks_emits_complete_drafts:
  "(r \<in> set (parseNpcBlocks list wantedId) \<longrightarrow>
      typeIsNPC r \<and> name r \<noteq> [] \<and> npc_id r \<noteq> [] \<and>
      (\<forall>w. wantedId = Some w \<and> w \<noteq> [] \<longrightarrow> npc_id r = w)) \<and>
   (isTypeLine t \<and> (\<forall>c\<in>set body. \<not> isTypeLine c \<and> \<not> isIdLine c) \<and>
      (post = [] \<or> isTypeLine (hd post)) \<longrightarrow>
      parseNpcBlocks (pre @ t # body @ post) wantedId' = parseNpcBlocks (pre @ post) wantedId') \<and>
   parseNpcBlocks list' (Some []) = parseNpcBlocks list' None"
proof (intro conjI impI)
  assume "r \<in> set (parseNpcBlocks list wantedId)"
  then have "emitted_ok wantedId r" by (rule parseNpcBlocks_ok)
  then show "typeIsNPC r" "name r \<noteq> []" "npc_id r \<noteq> []"
    "\<forall>w. wantedId = Some w \<and> w \<noteq> [] \<longrightarrow> npc_id r = w"
    by (auto simp: emitted_ok_def)
next
  assume "isTypeLine t \<and> (\<forall>c\<in>set body. \<not> isTypeLine c \<and> \<not> isIdLine c) \<and>
      (post = [] \<or> isTypeLine (hd post))"
  then have "results (pushCurrent wantedId' (foldl (parseCmd wantedId')
                 (foldl (parseCmd wantedId') \<lparr>results = [], draft = None, readingNote = False\<rparr> pre)
                 (t # body @ post)))
           = results (pushCurrent wantedId' (foldl (parseCmd wantedId')
                 (foldl (parseCmd wantedId') \<lparr>results = [], draft = None, readingNote = False\<rparr> pre)
                 post))"
    by (intro block_without_id) simp_all
  then show "parseNpcBlocks (pre @ t # body @ post) wantedId' = parseNpcBlocks (pre @ post) wantedId'"
    by (simp add: parseNpcBlocks_def)
next
  show "parseNpcBlocks list' (Some []) = parseNpcBlocks list' None"
    by (simp add: parseNpcBlocks_def parseCmd_empty_wanted pushCurrent_empty_wanted)
qed

theorem parseNpcBlocks_emits_complete_drafts_witness:
  "newDraft\<lparr>npc_id := ''1'', name := ''X''\<rparr>
     \<in> set (parseNpcBlocks [comment ''Type: NPC'', comment ''ID: 1'', comment ''Name: X''] (Some ''1'')) \<and>
   isTypeLine (comment ''Type: NPC'') \<and>
   list_all (\<lambda>c. \<not> isTypeLine c \<and> \<not> isIdLine c) [comment ''Name: Y'', comment ''Details: d''] \<and>
   parseNpcBlocks
     ([comment ''Type: NPC'', comment ''ID: 1'', comment ''Name: X'']
       @ comment ''Type: NPC'' # [comment ''Name: Y'', comment ''Details: d''] @ []) None
   = parseNpcBlocks ([comment ''Type: NPC'', comment ''ID: 1'', comment ''Name: X''] @ []) None \<and>
   length (parseNpcBlocks [comment ''Type: NPC'', comment ''ID: 1'', comment ''Name: X''] None) = 1"
proof -
  have h1: "newDraft\<lparr>npc_id := ''1'', name := ''X''\<rparr>
     \<in> set (parseNpcBlocks [comment ''Type: NPC'', comment ''ID: 1'', comment ''Name: X''] (Some ''1''))"
    by code_simp
  have h2: "isTypeLine (comment ''Type: NPC'')"
    by code_simp
  have h3: "list_all (\<lambda>c. \<not> isTypeLine c \<and> \<not> isIdLine c) [comment ''Name: Y'', comment ''Details: d'']"
    by code_simp
  have h4: "length (parseNpcBlocks [comment ''Type: NPC'', comment ''ID: 1'', comment ''Name: X''] None) = 1"
    by code_simp
  from h1 h2 h3 h4
    parseNpcBlocks_emits_complete_drafts
      [of "newDraft\<lparr>npc_id := ''1'', name := ''X''\<rparr>"
          "[comment ''Type: NPC'', comment ''ID: 1'', comment ''Name: X'']" "Some ''1''"
          "comment ''Type: NPC''" "[comment ''Name: Y'', comment ''Details: d'']" "[]"
          "[comment ''Type: NPC'', comment ''ID: 1'', comment ''Name: X'']" None "[]"]
  show ?thesis by (simp add: list_all_iff)
qed

text \<open>
  The claim as written fails for the empty string: \<^verbatim>\<open>parseNpcBlocks(list, "")\<close> returns
  the record with id \<^verbatim>\<open>"1"\<close>, which is not the wanted id.
\<close>

theorem parseNpcBlocks_empty_wantedId_counterexample:
  "map npc_id
     (parseNpcBlocks [comment ''Type: NPC'', comment ''ID: 1'', comment ''Name: X''] (Some []))
   = [''1'']"
  by code_simp

section \<open>Continuation lines of the notes\<close>

text \<open>
  \<^verbatim>\<open>trim\<close> removes white space at both ends and nothing else.
\<close>

lemma trim_decomp:
  "\<exists>a b. s = a @ trim s @ b \<and> (\<forall>c\<in>set a. isWhiteSpace c) \<and> (\<forall>c\<in>set b. isWhiteSpace c)"
proof -
  define t where "t = dropWhile isWhiteSpace s"
  have s: "s = takeWhile isWhiteSpace s @ t"
    by (simp add: t_def)
  have "rev (takeWhile isWhiteSpace (rev t) @ dropWhile isWhiteSpace (rev t)) = rev (rev t)"
    by (simp only: takeWhile_dropWhile_id)
  then have "rev (dropWhile isWhiteSpace (rev t)) @ rev (takeWhile isWhiteSpace (rev t)) = t"
    by (simp only: rev_append rev_rev_ident)
  then have t: "t = trim s @ rev (takeWhile isWhiteSpace (rev t))"
    by (simp only: trim_def t_def)
  have a: "\<forall>c\<in>set (takeWhile isWhiteSpace s). isWhiteSpace c"
    by (auto dest: set_takeWhileD)
  have b: "\<forall>c\<in>set (rev (takeWhile isWhiteSpace (rev t))). isWhiteSpace c"
    by (auto dest: set_takeWhileD)
  from s t have "s = takeWhile isWhiteSpace s @ trim s @ rev (takeWhile isWhiteSpace (rev t))"
    by simp
  with a b show ?thesis by blast
qed

lemma trim_ends:
  assumes "trim s \<noteq> []"
  shows "\<not> isWhiteSpace (hd (trim s))" and "\<not> isWhiteSpace (last (trim s))"
proof -
  define t where "t = dropWhile isWhiteSpace s"
  have tr: "trim s = rev (dropWhile isWhiteSpace (rev t))"
    by (simp add: trim_def t_def)
  with assms have ne: "dropWhile isWhiteSpace (rev t) \<noteq> []" by simp
  then show "\<not> isWhiteSpace (last (trim s))"
    by (simp add: tr last_rev hd_dropWhile)
  have "rev (takeWhile isWhiteSpace (rev t) @ dropWhile isWhiteSpace (rev t)) = rev (rev t)"
    by (simp only: takeWhile_dropWhile_id)
  then have "rev (dropWhile isWhiteSpace (rev t)) @ rev (takeWhile isWhiteSpace (rev t)) = t"
    by (simp only: rev_append rev_rev_ident)
  then have t: "t = trim s @ rev (takeWhile isWhiteSpace (rev t))"
    by (simp only: tr)
  with assms have "hd t = hd (trim s)" by (metis hd_append2)
  moreover from t assms have "t \<noteq> []" by auto
  then have "\<not> isWhiteSpace (hd t)" unfolding t_def by (rule hd_dropWhile)
  ultimately show "\<not> isWhiteSpace (hd (trim s))" by simp
qed

lemma parseCmd_plain:
  assumes d: "draft p = Some n" and u: "isPlainLine u"
  shows "parseCmd w p u =
     (if readingNote p then p\<lparr>draft := Some (n\<lparr>npc_notes := npc_notes n @ CHR 0x0A # lineOf u\<rparr>)\<rparr>
      else p)"
proof -
  from u have c: "\<not> (code u \<noteq> 108 \<and> code u \<noteq> 408)"
    and t: "\<not> (startsWith (trim (parameters0 u)) ''Type:'' \<and> includes_str (trim (parameters0 u)) ''NPC'')"
    and f: "\<not> startsWith (trim (parameters0 u)) ''ID:''" "\<not> startsWith (trim (parameters0 u)) ''Name:''"
      "\<not> startsWith (trim (parameters0 u)) ''Category:''" "\<not> startsWith (trim (parameters0 u)) ''Face:''"
      "\<not> startsWith (trim (parameters0 u)) ''Icon:''" "\<not> startsWith (trim (parameters0 u)) ''Details:''"
    unfolding isPlainLine_def isTypeLine_def isComment_def lineOf_def by auto
  show ?thesis
    unfolding parseCmd_def Let_def lineOf_def
    by (simp only: c t f d if_False option.case)
qed

lemma npc_notes_setFace: "npc_notes (setFace line n) = npc_notes n"
  by (simp add: setFace_def Let_def)

lemma npc_notes_setIcon: "npc_notes (setIcon line n) = npc_notes n"
  by (simp add: setIcon_def)

lemma startsWith_Cons:
  "startsWith s (c # p) = (case s of [] \<Rightarrow> False | x # xs \<Rightarrow> x = c \<and> startsWith xs p)"
  by (cases s) (simp_all add: startsWith_def)

lemma field_prefixes_disjoint:
  shows "startsWith l ''Name:'' \<Longrightarrow> \<not> startsWith l ''ID:''"
    and "startsWith l ''Category:'' \<Longrightarrow> \<not> startsWith l ''ID:'' \<and> \<not> startsWith l ''Name:''"
    and "startsWith l ''Face:'' \<Longrightarrow>
           \<not> startsWith l ''ID:'' \<and> \<not> startsWith l ''Name:'' \<and> \<not> startsWith l ''Category:''"
    and "startsWith l ''Icon:'' \<Longrightarrow>
           \<not> startsWith l ''ID:'' \<and> \<not> startsWith l ''Name:'' \<and> \<not> startsWith l ''Category:'' \<and>
           \<not> startsWith l ''Face:''"
  by (auto simp: startsWith_Cons split: list.splits)

lemma parseCmd_field_eq:
  assumes d: "draft p = Some n" and f: "isFieldLine f"
  shows "parseCmd w p f =
      (if startsWith (lineOf f) ''ID:'' then
         p\<lparr>draft := Some (n\<lparr>npc_id := trim (slice (lineOf f) 3)\<rparr>)\<rparr>
       else if startsWith (lineOf f) ''Name:'' then
         p\<lparr>draft := Some (n\<lparr>name := trim (slice (lineOf f) 5)\<rparr>)\<rparr>
       else if startsWith (lineOf f) ''Category:'' then
         p\<lparr>draft := Some (n\<lparr>category := trim (slice (lineOf f) 9)\<rparr>)\<rparr>
       else if startsWith (lineOf f) ''Face:'' then p\<lparr>draft := Some (setFace (lineOf f) n)\<rparr>
       else p\<lparr>draft := Some (setIcon (lineOf f) n)\<rparr>)"
proof -
  from f have c: "\<not> (code f \<noteq> 108 \<and> code f \<noteq> 408)"
    and t: "\<not> (startsWith (trim (parameters0 f)) ''Type:'' \<and> includes_str (trim (parameters0 f)) ''NPC'')"
    and pre: "startsWith (trim (parameters0 f)) ''ID:'' \<or> startsWith (trim (parameters0 f)) ''Name:'' \<or>
      startsWith (trim (parameters0 f)) ''Category:'' \<or> startsWith (trim (parameters0 f)) ''Face:'' \<or>
      startsWith (trim (parameters0 f)) ''Icon:''"
    unfolding isFieldLine_def isTypeLine_def isComment_def lineOf_def by auto
  show ?thesis
    unfolding parseCmd_def Let_def lineOf_def using pre
    by (simp only: c t d if_False option.case) presburger
qed

lemma parseCmd_field:
  assumes d: "draft p = Some n" and f: "isFieldLine f"
  shows "readingNote (parseCmd w p f) = readingNote p"
    and "results (parseCmd w p f) = results p"
    and "\<exists>n'. draft (parseCmd w p f) = Some n' \<and> npc_notes n' = npc_notes n"
proof -
  note eq = parseCmd_field_eq[OF d f, of w]
  show "readingNote (parseCmd w p f) = readingNote p"
    unfolding eq by simp
  show "results (parseCmd w p f) = results p"
    unfolding eq by simp
  show "\<exists>n'. draft (parseCmd w p f) = Some n' \<and> npc_notes n' = npc_notes n"
    unfolding eq by (simp add: npc_notes_setFace npc_notes_setIcon)
qed

lemma parseCmd_field_sets:
  assumes d: "draft p = Some n" and f: "isFieldLine f"
  shows "startsWith (lineOf f) ''ID:'' \<Longrightarrow>
           draft (parseCmd w p f) = Some (n\<lparr>npc_id := trim (slice (lineOf f) 3)\<rparr>)"
    and "startsWith (lineOf f) ''Name:'' \<Longrightarrow>
           draft (parseCmd w p f) = Some (n\<lparr>name := trim (slice (lineOf f) 5)\<rparr>)"
    and "startsWith (lineOf f) ''Category:'' \<Longrightarrow>
           draft (parseCmd w p f) = Some (n\<lparr>category := trim (slice (lineOf f) 9)\<rparr>)"
    and "startsWith (lineOf f) ''Face:'' \<Longrightarrow>
           draft (parseCmd w p f) =
             Some (n\<lparr>faceName :=
                        trim (case split (slice (lineOf f) 5) (CHR '','') of
                                [] \<Rightarrow> [] | a # x \<Rightarrow> a),
                      faceIndex :=
                        parseInt (case split (slice (lineOf f) 5) (CHR '','') of
                                    a # b # x \<Rightarrow> (if b = [] then ''0'' else b)
                                  | _ \<Rightarrow> ''0'')\<rparr>)"
    and "startsWith (lineOf f) ''Icon:'' \<Longrightarrow>
           draft (parseCmd w p f) =
             Some (n\<lparr>iconIndexes :=
                        take 3 (filter (\<lambda>k. k \<noteq> NaN)
                          (map (\<lambda>s. parseInt (trim s))
                             (split (slice (lineOf f) 5) (CHR '',''))))\<rparr>)"
proof -
  note eq = parseCmd_field_eq[OF d f, of w]
  show "startsWith (lineOf f) ''ID:'' \<Longrightarrow>
           draft (parseCmd w p f) = Some (n\<lparr>npc_id := trim (slice (lineOf f) 3)\<rparr>)"
    unfolding eq by simp
  show "startsWith (lineOf f) ''Name:'' \<Longrightarrow>
           draft (parseCmd w p f) = Some (n\<lparr>name := trim (slice (lineOf f) 5)\<rparr>)"
    unfolding eq using field_prefixes_disjoint(1)[of "lineOf f"] by simp
  show "startsWith (lineOf f) ''Category:'' \<Longrightarrow>
           draft (parseCmd w p f) = Some (n\<lparr>category := trim (slice (lineOf f) 9)\<rparr>)"
    unfolding eq using field_prefixes_disjoint(2)[of "lineOf f"] by simp
  show "startsWith (lineOf f) ''Face:'' \<Longrightarrow>
           draft (parseCmd w p f) =
             Some (n\<lparr>faceName :=
                        trim (case split (slice (lineOf f) 5) (CHR '','') of
                                [] \<Rightarrow> [] | a # x \<Rightarrow> a),
                      faceIndex :=
                        parseInt (case split (slice (lineOf f) 5) (CHR '','') of
                                    a # b # x \<Rightarrow> (if b = [] then ''0'' else b)
                                  | _ \<Rightarrow> ''0'')\<rparr>)"
    unfolding eq using field_prefixes_disjoint(3)[of "lineOf f"]
    by (simp add: setFace_def Let_def)
  show "startsWith (lineOf f) ''Icon:'' \<Longrightarrow>
           draft (parseCmd w p f) =
             Some (n\<lparr>iconIndexes :=
                        take 3 (filter (\<lambda>k. k \<noteq> NaN)
                          (map (\<lambda>s. parseInt (trim s))
                             (split (slice (lineOf f) 5) (CHR '',''))))\<rparr>)"
    unfolding eq using field_prefixes_disjoint(4)[of "lineOf f"]
    by (simp add: setIcon_def isNaN_def)
qed

lemma readingNote_kept:
  assumes c: "isComment c" and t: "\<not> isTypeLine c" and r: "readingNote p"
  shows "readingNote (parseCmd w p c)"
proof -
  from c have c': "\<not> (code c \<noteq> 108 \<and> code c \<noteq> 408)"
    by (simp add: isComment_def)
  from c t have t': "\<not> (startsWith (trim (parameters0 c)) ''Type:'' \<and>
      includes_str (trim (parameters0 c)) ''NPC'')"
    by (simp add: isTypeLine_def lineOf_def)
  show ?thesis
  proof (cases "draft p")
    case None
    then show ?thesis
      unfolding parseCmd_def Let_def using r by (simp only: c' t' if_False option.case)
  next
    case (Some n)
    show ?thesis
      unfolding parseCmd_def Let_def using r
      by (simp only: c' t' if_False option.case Some) simp
  qed
qed

lemma readingNote_ended:
  assumes "\<not> isComment c \<or> isTypeLine c"
  shows "\<not> readingNote (parseCmd w p c)"
proof (cases "isComment c")
  case False
  then show ?thesis by (simp add: parseCmd_def isComment_def)
next
  case True
  with assms have "isTypeLine c" by simp
  then show ?thesis by (simp add: parseCmd_type)
qed

text \<open>
  Claim C3, as the code has it. While a draft is open and continuation mode is on
  (\<^verbatim>\<open>readingNote\<close>), a recognised field line sets its field and nothing else of the
  draft: \<^verbatim>\<open>ID:\<close>, \<^verbatim>\<open>Name:\<close> and \<^verbatim>\<open>Category:\<close> put the trimmed rest of the line into
  \<^verbatim>\<open>id\<close>, \<^verbatim>\<open>name\<close> and \<^verbatim>\<open>category\<close>; \<^verbatim>\<open>Face:\<close> splits the rest at the commas, puts the
  trimmed first part into \<^verbatim>\<open>faceName\<close> and \<^verbatim>\<open>parseInt\<close> of the second part, or of
  \<^verbatim>\<open>"0"\<close> when that part is missing or empty, into \<^verbatim>\<open>faceIndex\<close>; \<^verbatim>\<open>Icon:\<close> splits
  the rest at the commas and puts the first three parts that \<^verbatim>\<open>parseInt\<close> reads as a
  number into \<^verbatim>\<open>iconIndexes\<close>. The line leaves the results as they are and leaves
  continuation mode on; so an unrecognised line that follows such a field line is
  appended to the notes, after a line break. Continuation mode stays on over every
  comment line that is not a \<^verbatim>\<open>Type:\<close> line with \<^verbatim>\<open>NPC\<close>, and it ends at such a line and
  at a command that is no comment.
\<close>

theorem field_line_keeps_continuation:
  "(draft p = Some n \<and> readingNote p \<and> isFieldLine f \<and> isPlainLine u \<longrightarrow>
     readingNote (parseCmd w p f) \<and>
     results (parseCmd w p f) = results p \<and>
     (startsWith (lineOf f) ''ID:'' \<longrightarrow>
        draft (parseCmd w p f) = Some (n\<lparr>npc_id := trim (slice (lineOf f) 3)\<rparr>)) \<and>
     (startsWith (lineOf f) ''Name:'' \<longrightarrow>
        draft (parseCmd w p f) = Some (n\<lparr>name := trim (slice (lineOf f) 5)\<rparr>)) \<and>
     (startsWith (lineOf f) ''Category:'' \<longrightarrow>
        draft (parseCmd w p f) = Some (n\<lparr>category := trim (slice (lineOf f) 9)\<rparr>)) \<and>
     (startsWith (lineOf f) ''Face:'' \<longrightarrow>
        draft (parseCmd w p f) =
          Some (n\<lparr>faceName :=
                     trim (case split (slice (lineOf f) 5) (CHR '','') of
                             [] \<Rightarrow> [] | a # x \<Rightarrow> a),
                   faceIndex :=
                     parseInt (case split (slice (lineOf f) 5) (CHR '','') of
                                 a # b # x \<Rightarrow> (if b = [] then ''0'' else b)
                               | _ \<Rightarrow> ''0'')\<rparr>)) \<and>
     (startsWith (lineOf f) ''Icon:'' \<longrightarrow>
        draft (parseCmd w p f) =
          Some (n\<lparr>iconIndexes :=
                     take 3 (filter (\<lambda>k. k \<noteq> NaN)
                       (map (\<lambda>s. parseInt (trim s))
                          (split (slice (lineOf f) 5) (CHR '',''))))\<rparr>)) \<and>
     (\<exists>n'. draft (parseCmd w p f) = Some n' \<and> npc_notes n' = npc_notes n \<and>
           parseCmd w (parseCmd w p f) u =
             (parseCmd w p f)\<lparr>draft := Some (n'\<lparr>npc_notes := npc_notes n @ CHR 0x0A # lineOf u\<rparr>)\<rparr>)) \<and>
   (isComment c \<and> \<not> isTypeLine c \<and> readingNote q \<longrightarrow> readingNote (parseCmd w q c)) \<and>
   (\<not> isComment c' \<or> isTypeLine c' \<longrightarrow> \<not> readingNote (parseCmd w q' c'))"
  (is "(?A \<longrightarrow> ?B) \<and> ?C \<and> ?D")
proof -
  have first: "?A \<longrightarrow> ?B"
  proof
    assume a: ?A
    then have d: "draft p = Some n" and f: "isFieldLine f" and u: "isPlainLine u"
      and r: "readingNote p"
      by simp_all
    note fl = parseCmd_field[OF d f, of w]
    note fs = parseCmd_field_sets[OF d f, of w]
    from fl(3) obtain n' where n': "draft (parseCmd w p f) = Some n'" "npc_notes n' = npc_notes n"
      by blast
    from fl(1) r have r': "readingNote (parseCmd w p f)" by simp
    have "parseCmd w (parseCmd w p f) u =
            (parseCmd w p f)\<lparr>draft := Some (n'\<lparr>npc_notes := npc_notes n' @ CHR 0x0A # lineOf u\<rparr>)\<rparr>"
      using parseCmd_plain[OF n'(1) u, of w] r' by simp
    with n' have ex: "\<exists>n'. draft (parseCmd w p f) = Some n' \<and> npc_notes n' = npc_notes n \<and>
             parseCmd w (parseCmd w p f) u =
               (parseCmd w p f)\<lparr>draft := Some (n'\<lparr>npc_notes := npc_notes n @ CHR 0x0A # lineOf u\<rparr>)\<rparr>"
      by simp
    show ?B
      by (intro conjI impI) (rule r', rule fl(2), erule fs(1), erule fs(2), erule fs(3),
          erule fs(4), erule fs(5), rule ex)
  qed
  have second: ?C
    by (simp add: readingNote_kept)
  have third: ?D
    using readingNote_ended by blast
  from first second third show ?thesis
    by (intro conjI)
qed

theorem field_line_keeps_continuation_witness:
  "isFieldLine (comment ''Category: c'') \<and> isPlainLine (comment ''foo'') \<and>
   readingNote (parseCmd None
     \<lparr>results = [], draft = Some (newDraft\<lparr>npc_notes := ''a''\<rparr>), readingNote = True\<rparr>
     (comment ''Category: c'')) \<and>
   draft (parseCmd None
     \<lparr>results = [], draft = Some (newDraft\<lparr>npc_notes := ''a''\<rparr>), readingNote = True\<rparr>
     (comment ''ID:  7 ''))
   = Some (newDraft\<lparr>npc_id := ''7'', npc_notes := ''a''\<rparr>) \<and>
   draft (parseCmd None
     \<lparr>results = [], draft = Some (newDraft\<lparr>npc_notes := ''a''\<rparr>), readingNote = True\<rparr>
     (comment ''Name: Ann''))
   = Some (newDraft\<lparr>name := ''Ann'', npc_notes := ''a''\<rparr>) \<and>
   draft (parseCmd None
     \<lparr>results = [], draft = Some (newDraft\<lparr>npc_notes := ''a''\<rparr>), readingNote = True\<rparr>
     (comment ''Category: c''))
   = Some (newDraft\<lparr>category := ''c'', npc_notes := ''a''\<rparr>) \<and>
   draft (parseCmd None
     \<lparr>results = [], draft = Some (newDraft\<lparr>npc_notes := ''a''\<rparr>), readingNote = True\<rparr>
     (comment ''Face: Actor1, 3''))
   = Some (newDraft\<lparr>faceName := ''Actor1'', faceIndex := Num 3, npc_notes := ''a''\<rparr>) \<and>
   draft (parseCmd None
     \<lparr>results = [], draft = Some (newDraft\<lparr>npc_notes := ''a''\<rparr>), readingNote = True\<rparr>
     (comment ''Icon: 4, x, 5, 6, 7''))
   = Some (newDraft\<lparr>iconIndexes := [Num 4, Num 5, Num 6], npc_notes := ''a''\<rparr>) \<and>
   draft (parseCmd None (parseCmd None
     \<lparr>results = [], draft = Some (newDraft\<lparr>npc_notes := ''a''\<rparr>), readingNote = True\<rparr>
     (comment ''Category: c'')) (comment ''foo''))
   = Some (newDraft\<lparr>category := ''c'', npc_notes := ''a'' @ CHR 0x0A # ''foo''\<rparr>) \<and>
   isComment (comment ''foo'') \<and>
   readingNote (parseCmd None
     \<lparr>results = [], draft = Some (newDraft\<lparr>npc_notes := ''a''\<rparr>), readingNote = True\<rparr>
     (comment ''foo'')) \<and>
   \<not> isComment \<lparr>code = 101, parameters0 = ''Hello''\<rparr> \<and>
   \<not> readingNote (parseCmd None
     \<lparr>results = [], draft = Some (newDraft\<lparr>npc_notes := ''a''\<rparr>), readingNote = True\<rparr>
     \<lparr>code = 101, parameters0 = ''Hello''\<rparr>)"
proof -
  define p0 where
    "p0 = \<lparr>results = [], draft = Some (newDraft\<lparr>npc_notes := ''a''\<rparr>), readingNote = True\<rparr>"
  define n0 where "n0 = newDraft\<lparr>npc_notes := ''a''\<rparr>"
  have f: "isFieldLine (comment ''Category: c'')" "isFieldLine (comment ''ID:  7 '')"
    "isFieldLine (comment ''Name: Ann'')" "isFieldLine (comment ''Face: Actor1, 3'')"
    "isFieldLine (comment ''Icon: 4, x, 5, 6, 7'')"
    by code_simp+
  have s: "startsWith (lineOf (comment ''Category: c'')) ''Category:''"
    "startsWith (lineOf (comment ''ID:  7 '')) ''ID:''"
    "startsWith (lineOf (comment ''Name: Ann'')) ''Name:''"
    "startsWith (lineOf (comment ''Face: Actor1, 3'')) ''Face:''"
    "startsWith (lineOf (comment ''Icon: 4, x, 5, 6, 7'')) ''Icon:''"
    by code_simp+
  have u: "isPlainLine (comment ''foo'')"
    by code_simp
  have k: "isComment (comment ''foo'') \<and> \<not> isTypeLine (comment ''foo'')"
    by code_simp
  have nc: "\<not> isComment \<lparr>code = 101, parameters0 = ''Hello''\<rparr>"
    by code_simp
  have d: "draft p0 = Some n0 \<and> readingNote p0"
    by (simp add: p0_def n0_def)
  note inst = field_line_keeps_continuation
    [where p = p0 and n = n0 and u = "comment ''foo''" and w = None and c = "comment ''foo''"
       and q = p0 and c' = "\<lparr>code = 101, parameters0 = ''Hello''\<rparr>" and q' = p0]
  from inst[where f = "comment ''Category: c''"] f(1) u d
  have r: "readingNote (parseCmd None p0 (comment ''Category: c''))"
    by blast
  from inst[where f = "comment ''ID:  7 ''"] f(2) s(2) u d
  have "draft (parseCmd None p0 (comment ''ID:  7 ''))
      = Some (n0\<lparr>npc_id := trim (slice (lineOf (comment ''ID:  7 '')) 3)\<rparr>)"
    by blast
  moreover have "n0\<lparr>npc_id := trim (slice (lineOf (comment ''ID:  7 '')) 3)\<rparr>
      = newDraft\<lparr>npc_id := ''7'', npc_notes := ''a''\<rparr>"
    unfolding n0_def by code_simp
  ultimately have e1: "draft (parseCmd None p0 (comment ''ID:  7 ''))
      = Some (newDraft\<lparr>npc_id := ''7'', npc_notes := ''a''\<rparr>)"
    by simp
  from inst[where f = "comment ''Name: Ann''"] f(3) s(3) u d
  have "draft (parseCmd None p0 (comment ''Name: Ann''))
      = Some (n0\<lparr>name := trim (slice (lineOf (comment ''Name: Ann'')) 5)\<rparr>)"
    by blast
  moreover have "n0\<lparr>name := trim (slice (lineOf (comment ''Name: Ann'')) 5)\<rparr>
      = newDraft\<lparr>name := ''Ann'', npc_notes := ''a''\<rparr>"
    unfolding n0_def by code_simp
  ultimately have e2: "draft (parseCmd None p0 (comment ''Name: Ann''))
      = Some (newDraft\<lparr>name := ''Ann'', npc_notes := ''a''\<rparr>)"
    by simp
  from inst[where f = "comment ''Category: c''"] f(1) s(1) u d
  have "draft (parseCmd None p0 (comment ''Category: c''))
      = Some (n0\<lparr>category := trim (slice (lineOf (comment ''Category: c'')) 9)\<rparr>)"
    by blast
  moreover have "n0\<lparr>category := trim (slice (lineOf (comment ''Category: c'')) 9)\<rparr>
      = newDraft\<lparr>category := ''c'', npc_notes := ''a''\<rparr>"
    unfolding n0_def by code_simp
  ultimately have e3: "draft (parseCmd None p0 (comment ''Category: c''))
      = Some (newDraft\<lparr>category := ''c'', npc_notes := ''a''\<rparr>)"
    by simp
  from inst[where f = "comment ''Face: Actor1, 3''"] f(4) s(4) u d
  have "draft (parseCmd None p0 (comment ''Face: Actor1, 3''))
      = Some (n0\<lparr>faceName :=
                     trim (case split (slice (lineOf (comment ''Face: Actor1, 3'')) 5) (CHR '','') of
                             [] \<Rightarrow> [] | a # x \<Rightarrow> a),
                   faceIndex :=
                     parseInt (case split (slice (lineOf (comment ''Face: Actor1, 3'')) 5) (CHR '','') of
                                 a # b # x \<Rightarrow> (if b = [] then ''0'' else b)
                               | _ \<Rightarrow> ''0'')\<rparr>)"
    by blast
  moreover have "n0\<lparr>faceName :=
                     trim (case split (slice (lineOf (comment ''Face: Actor1, 3'')) 5) (CHR '','') of
                             [] \<Rightarrow> [] | a # x \<Rightarrow> a),
                   faceIndex :=
                     parseInt (case split (slice (lineOf (comment ''Face: Actor1, 3'')) 5) (CHR '','') of
                                 a # b # x \<Rightarrow> (if b = [] then ''0'' else b)
                               | _ \<Rightarrow> ''0'')\<rparr>
      = newDraft\<lparr>faceName := ''Actor1'', faceIndex := Num 3, npc_notes := ''a''\<rparr>"
    unfolding n0_def by code_simp
  ultimately have e4: "draft (parseCmd None p0 (comment ''Face: Actor1, 3''))
      = Some (newDraft\<lparr>faceName := ''Actor1'', faceIndex := Num 3, npc_notes := ''a''\<rparr>)"
    by simp
  from inst[where f = "comment ''Icon: 4, x, 5, 6, 7''"] f(5) s(5) u d
  have "draft (parseCmd None p0 (comment ''Icon: 4, x, 5, 6, 7''))
      = Some (n0\<lparr>iconIndexes :=
                     take 3 (filter (\<lambda>k. k \<noteq> NaN)
                       (map (\<lambda>s. parseInt (trim s))
                          (split (slice (lineOf (comment ''Icon: 4, x, 5, 6, 7'')) 5) (CHR '',''))))\<rparr>)"
    by blast
  moreover have "n0\<lparr>iconIndexes :=
                     take 3 (filter (\<lambda>k. k \<noteq> NaN)
                       (map (\<lambda>s. parseInt (trim s))
                          (split (slice (lineOf (comment ''Icon: 4, x, 5, 6, 7'')) 5) (CHR '',''))))\<rparr>
      = newDraft\<lparr>iconIndexes := [Num 4, Num 5, Num 6], npc_notes := ''a''\<rparr>"
    unfolding n0_def by code_simp
  ultimately have e5: "draft (parseCmd None p0 (comment ''Icon: 4, x, 5, 6, 7''))
      = Some (newDraft\<lparr>iconIndexes := [Num 4, Num 5, Num 6], npc_notes := ''a''\<rparr>)"
    by simp
  from inst[where f = "comment ''Category: c''"] k d
  have r2: "readingNote (parseCmd None p0 (comment ''foo''))"
    by blast
  from inst[where f = "comment ''Category: c''"] nc
  have r3: "\<not> readingNote (parseCmd None p0 \<lparr>code = 101, parameters0 = ''Hello''\<rparr>)"
    by blast
  have e: "draft (parseCmd None (parseCmd None p0 (comment ''Category: c'')) (comment ''foo''))
   = Some (newDraft\<lparr>category := ''c'', npc_notes := ''a'' @ CHR 0x0A # ''foo''\<rparr>)"
    unfolding p0_def by code_simp
  show ?thesis
    using f(1) u r e1 e2 e3 e4 e5 e k r2 nc r3 unfolding p0_def by blast
qed

text \<open>
  The claim as written fails: after \<^verbatim>\<open>Details: a\<close> and the field line
  \<^verbatim>\<open>Category: c\<close>, the unrecognised line \<^verbatim>\<open>foo\<close> is not ignored, it is appended.
\<close>

theorem field_line_ends_continuation_counterexample:
  "map npc_notes (parseNpcBlocks
     [comment ''Type: NPC'', comment ''ID: 1'', comment ''Name: X'', comment ''Details: a'',
      comment ''Category: c'', comment ''foo''] None)
   = [''a'' @ CHR 0x0A # ''foo'']"
  by code_simp

text \<open>
  Claim C8, as the code has it. In continuation mode an unrecognised comment line is
  appended to the notes as a line break followed by the line after \<^verbatim>\<open>trim()\<close>: the
  white space at both ends of the comment's text is removed (the text is some white
  space, the appended line, and some white space again, and the appended line neither
  starts nor ends with white space).
\<close>

theorem continuation_appends_trimmed_line:
  "draft p = Some n \<and> readingNote p \<and> isPlainLine u \<longrightarrow>
     parseCmd w p u =
       p\<lparr>draft := Some (n\<lparr>npc_notes := npc_notes n @ CHR 0x0A # trim (parameters0 u)\<rparr>)\<rparr> \<and>
     (\<exists>a b. parameters0 u = a @ trim (parameters0 u) @ b \<and>
            (\<forall>c\<in>set a. isWhiteSpace c) \<and> (\<forall>c\<in>set b. isWhiteSpace c)) \<and>
     (trim (parameters0 u) \<noteq> [] \<longrightarrow>
        \<not> isWhiteSpace (hd (trim (parameters0 u))) \<and> \<not> isWhiteSpace (last (trim (parameters0 u))))"
proof
  assume a: "draft p = Some n \<and> readingNote p \<and> isPlainLine u"
  then have d: "draft p = Some n" and u: "isPlainLine u" and r: "readingNote p"
    by simp_all
  have 1: "parseCmd w p u =
       p\<lparr>draft := Some (n\<lparr>npc_notes := npc_notes n @ CHR 0x0A # trim (parameters0 u)\<rparr>)\<rparr>"
    using parseCmd_plain[OF d u, of w] r by (simp add: lineOf_def)
  have 2: "trim (parameters0 u) \<noteq> [] \<longrightarrow>
        \<not> isWhiteSpace (hd (trim (parameters0 u))) \<and> \<not> isWhiteSpace (last (trim (parameters0 u)))"
    using trim_ends[of "parameters0 u"] by blast
  from 1 2 trim_decomp[of "parameters0 u"]
  show "parseCmd w p u =
       p\<lparr>draft := Some (n\<lparr>npc_notes := npc_notes n @ CHR 0x0A # trim (parameters0 u)\<rparr>)\<rparr> \<and>
     (\<exists>a b. parameters0 u = a @ trim (parameters0 u) @ b \<and>
            (\<forall>c\<in>set a. isWhiteSpace c) \<and> (\<forall>c\<in>set b. isWhiteSpace c)) \<and>
     (trim (parameters0 u) \<noteq> [] \<longrightarrow>
        \<not> isWhiteSpace (hd (trim (parameters0 u))) \<and> \<not> isWhiteSpace (last (trim (parameters0 u))))"
    by blast
qed


theorem continuation_appends_trimmed_line_witness:
  "isPlainLine (comment ''  foo  '') \<and>
   parseCmd None
     \<lparr>results = [], draft = Some (newDraft\<lparr>npc_notes := ''a''\<rparr>), readingNote = True\<rparr>
     (comment ''  foo  '')
   = \<lparr>results = [], draft = Some (newDraft\<lparr>npc_notes := ''a'' @ CHR 0x0A # ''foo''\<rparr>),
      readingNote = True\<rparr>"
proof -
  have u: "isPlainLine (comment ''  foo  '')"
    by code_simp
  have t: "trim (parameters0 (comment ''  foo  '')) = ''foo''"
    by code_simp
  have d: "draft \<lparr>results = [], draft = Some (newDraft\<lparr>npc_notes := ''a''\<rparr>), readingNote = True\<rparr>
             = Some (newDraft\<lparr>npc_notes := ''a''\<rparr>) \<and>
           readingNote \<lparr>results = [], draft = Some (newDraft\<lparr>npc_notes := ''a''\<rparr>), readingNote = True\<rparr>"
    by simp
  have "parseCmd None
     \<lparr>results = [], draft = Some (newDraft\<lparr>npc_notes := ''a''\<rparr>), readingNote = True\<rparr>
     (comment ''  foo  '')
   = \<lparr>results = [], draft = Some (newDraft\<lparr>npc_notes := ''a''\<rparr>), readingNote = True\<rparr>
       \<lparr>draft := Some ((newDraft\<lparr>npc_notes := ''a''\<rparr>)
          \<lparr>npc_notes := npc_notes (newDraft\<lparr>npc_notes := ''a''\<rparr>) @ CHR 0x0A #
              trim (parameters0 (comment ''  foo  ''))\<rparr>)\<rparr>"
    using continuation_appends_trimmed_line
      [of "\<lparr>results = [], draft = Some (newDraft\<lparr>npc_notes := ''a''\<rparr>), readingNote = True\<rparr>"
          "newDraft\<lparr>npc_notes := ''a''\<rparr>" "comment ''  foo  ''" None]
      u d by blast
  with u t show ?thesis by simp
qed

text \<open>
  The claim as written fails: the continuation line \<^verbatim>\<open>"  foo  "\<close> is appended as
  \<^verbatim>\<open>"foo"\<close>, without the white space around it.
\<close>

theorem continuation_line_untrimmed_counterexample:
  "map npc_notes (parseNpcBlocks
     [comment ''Type: NPC'', comment ''ID: 1'', comment ''Name: X'', comment ''Details: a'',
      comment ''  foo  ''] None)
   = [''a'' @ CHR 0x0A # ''foo''] \<and>
   map npc_notes (parseNpcBlocks
     [comment ''Type: NPC'', comment ''ID: 1'', comment ''Name: X'', comment ''Details: a'',
      comment ''  foo  ''] None)
   \<noteq> [''a'' @ CHR 0x0A # ''  foo  '']"
  by code_simp

section \<open>The \<^verbatim>\<open>Face:\<close> line\<close>

text \<open>
  Claim C4. The remainder of a \<^verbatim>\<open>Face:\<close> line is split on the comma, the first part
  trimmed is the face name, and the second part is read by \<^verbatim>\<open>parseInt\<close>, with \<open>0\<close> for
  a missing part: \<^verbatim>\<open>Face: Actor1,3\<close> gives index \<open>3\<close> and \<^verbatim>\<open>Face: Actor1\<close> gives \<open>0\<close>.
  For a second part that is no number the claim asks for \<open>0\<close> too, and there the code
  differs: \<^verbatim>\<open>Face: Actor1,abc\<close> gives the index \<^verbatim>\<open>NaN\<close>.
\<close>

theorem face_index_unparseable_is_NaN:
  "map (\<lambda>r. (faceName r, faceIndex r))
     (parseNpcBlocks [comment ''Type: NPC'', comment ''ID: 1'', comment ''Name: X'',
        comment ''Face: Actor1,abc''] None)
   = [(''Actor1'', NaN)] \<and>
   map (\<lambda>r. (faceName r, faceIndex r))
     (parseNpcBlocks [comment ''Type: NPC'', comment ''ID: 1'', comment ''Name: X'',
        comment ''Face: Actor1''] None)
   = [(''Actor1'', Num 0)] \<and>
   map (\<lambda>r. (faceName r, faceIndex r))
     (parseNpcBlocks [comment ''Type: NPC'', comment ''ID: 1'', comment ''Name: X'',
        comment ''Face: Actor1,3''] None)
   = [(''Actor1'', Num 3)]"
  by code_simp

section \<open>The registry\<close>

text \<open>
  \<^verbatim>\<open>String\<close> prints a number id in decimal notation: \<^verbatim>\<open>parseInt\<close> reads the number
  back from it, so two number ids with one string are one number.
\<close>

lemma digit_not_space: "isDigit c \<Longrightarrow> \<not> isWhiteSpace c \<and> c \<noteq> CHR ''-'' \<and> c \<noteq> CHR ''+''"
proof -
  assume "isDigit c"
  then have r: "(48::nat) \<le> of_char c" by (simp add: isDigit_def)
  have "\<not> isWhiteSpace c"
  proof
    assume "isWhiteSpace c"
    then have "(of_char c :: nat) \<in> {9, 10, 11, 12, 13, 32, 160}"
      by (auto simp: isWhiteSpace_def)
    with r \<open>isDigit c\<close> show False by (auto simp: isDigit_def)
  qed
  moreover from r have "c \<noteq> CHR ''-''" "c \<noteq> CHR ''+''" by auto
  ultimately show ?thesis by simp
qed

lemma digit_char:
  assumes "d < 10"
  shows "isDigit (char_of (48 + d))" and "digitValue (char_of (48 + d)) = int d"
proof -
  from assms have v: "(of_char (char_of (48 + d) :: char) :: nat) = 48 + d"
    by simp
  then show "isDigit (char_of (48 + d))"
    using assms by (simp add: isDigit_def)
  have "(of_char (char_of (48 + d) :: char) :: int) = int (of_char (char_of (48 + d) :: char))"
    by (simp only: of_nat_of_char)
  also have "\<dots> = 48 + int d" by (simp only: v of_nat_add of_nat_numeral)
  finally show "digitValue (char_of (48 + d)) = int d"
    by (simp add: digitValue_def)
qed

lemma digits_cases: "digits n = (if n < 10 then [char_of (48 + n)]
      else digits (n div 10) @ [char_of (48 + n mod 10)])"
  by (rule digits.simps)

lemma digits_nonempty: "digits n \<noteq> []"
  by (subst digits_cases) simp

lemma digits_all: "\<forall>c\<in>set (digits n). isDigit c"
proof (induction n rule: digits.induct)
  case (1 n)
  show ?case
  proof (cases "n < 10")
    case True
    then have "digits n = [char_of (48 + n)]" by (subst digits_cases) simp
    with digit_char(1)[OF True] show ?thesis by simp
  next
    case False
    then have "digits n = digits (n div 10) @ [char_of (48 + n mod 10)]"
      by (subst digits_cases) simp
    moreover have "isDigit (char_of (48 + n mod 10))" by (rule digit_char) simp
    ultimately show ?thesis using "1.IH"[OF False] by simp
  qed
qed

lemma decimalValue_snoc: "decimalValue (ds @ [c]) = 10 * decimalValue ds + digitValue c"
  by (simp add: decimalValue_def)

lemma decimalValue_digits: "decimalValue (digits n) = int n"
proof (induction n rule: digits.induct)
  case (1 n)
  show ?case
  proof (cases "n < 10")
    case True
    then have "digits n = [char_of (48 + n)]" by (subst digits_cases) simp
    with digit_char(2)[OF True] show ?thesis by (simp add: decimalValue_def)
  next
    case False
    then have "digits n = digits (n div 10) @ [char_of (48 + n mod 10)]"
      by (subst digits_cases) simp
    then have "decimalValue (digits n)
        = 10 * decimalValue (digits (n div 10)) + digitValue (char_of (48 + n mod 10))"
      by (simp only: decimalValue_snoc)
    also have "digitValue (char_of (48 + n mod 10)) = int (n mod 10)"
      by (rule digit_char) simp
    also have "decimalValue (digits (n div 10)) = int (n div 10)"
      by (rule "1.IH"[OF False])
    also have "10 * int (n div 10) + int (n mod 10) = int n" by presburger
    finally show ?thesis .
  qed
qed

lemma parseInt_decimal:
  assumes ne: "ds \<noteq> []" and all: "\<forall>c\<in>set ds. isDigit c"
  shows "parseInt ds = Num (decimalValue ds)"
    and "parseInt (CHR ''-'' # ds) = Num (- decimalValue ds)"
proof -
  from ne obtain c cs where ds: "ds = c # cs" by (cases ds) auto
  with all have c: "isDigit c" and cs: "takeWhile isDigit cs = cs"
    by (simp_all add: takeWhile_eq_all_conv)
  note ns = digit_not_space[OF c]
  have tw: "takeWhile isDigit ds = ds"
    using c cs by (simp add: ds)
  have dw: "dropWhile isWhiteSpace ds = ds"
    using ns by (simp add: ds)
  have m: "\<not> isWhiteSpace (CHR ''-'')" by (simp add: isWhiteSpace_def)
  show "parseInt ds = Num (decimalValue ds)"
    unfolding parseInt_def Let_def dw
    using ns ne c by (simp add: ds) (simp only: cs)
  show "parseInt (CHR ''-'' # ds) = Num (- decimalValue ds)"
    unfolding parseInt_def Let_def
    using m ne by (simp add: tw)
qed

lemma parseInt_String: "parseInt (String (NumId n)) = Num (int_of n)"
proof (cases "int_of n < 0")
  case True
  then show ?thesis
    using parseInt_decimal(2)[OF digits_nonempty digits_all, of "nat (- int_of n)"]
    by (simp add: decimalValue_digits)
next
  case False
  then show ?thesis
    using parseInt_decimal(1)[OF digits_nonempty digits_all, of "nat (int_of n)"]
    by (simp add: decimalValue_digits)
qed

lemma String_NumId_inject: "(String (NumId m) = String (NumId n)) = (m = n)"
proof
  assume "String (NumId m) = String (NumId n)"
  then have "parseInt (String (NumId m)) = parseInt (String (NumId n))" by simp
  then have "int_of m = int_of n" by (simp only: parseInt_String jsnum.inject)
  then show "m = n" by (simp only: int_of_inject)
qed simp

lemma int_of_SafeInteger: "\<bar>n\<bar> < 2 ^ 53 \<Longrightarrow> int_of (SafeInteger n) = n"
  by (simp add: SafeInteger_inverse)

subsection \<open>The store of the listeners\<close>

text \<open>
  What a registration does to the table and the store, and what it leaves alone, as
  long as nothing was registered for the property under \<^verbatim>\<open>__proto__\<close>.
\<close>

lemma prototypeProperty_propName: "prototypeProperty g (propName q) = own g ObjectPrototype q"
  by (cases q) (simp_all add: prototypeProperty_def objectPrototypeNames_def)

lemma prototypeProperty_cong:
  assumes "own g' ObjectPrototype = own g ObjectPrototype"
  shows "prototypeProperty g' k = prototypeProperty g k"
  unfolding prototypeProperty_def assms ..

lemma prototypeProperty_diff:
  assumes "prototypeProperty g' k \<noteq> prototypeProperty g k"
  shows "\<exists>q. k = propName q \<and> own g' ObjectPrototype q \<noteq> own g ObjectPrototype q"
proof (cases "k \<in> set objectPrototypeNames")
  case True
  with assms show ?thesis by (simp add: prototypeProperty_def)
next
  case False
  show ?thesis
  proof (cases "k = ''added''")
    case True
    with assms False have "k = propName PropAdded \<and>
        own g' ObjectPrototype PropAdded \<noteq> own g ObjectPrototype PropAdded"
      by (simp add: prototypeProperty_def)
    then show ?thesis by blast
  next
    case na: False
    show ?thesis
    proof (cases "k = ''removed''")
      case True
      with assms False na have "k = propName PropRemoved \<and>
          own g' ObjectPrototype PropRemoved \<noteq> own g ObjectPrototype PropRemoved"
        by (simp add: prototypeProperty_def)
      then show ?thesis by blast
    next
      case False
      with assms na \<open>k \<notin> set objectPrototypeNames\<close> show ?thesis
        by (simp add: prototypeProperty_def)
    qed
  qed
qed

lemma prototypeProperty_Some:
  assumes "prototypeProperty g k = Some r" "k \<notin> set objectPrototypeNames"
  shows "\<exists>q. k = propName q \<and> own g ObjectPrototype q = Some r"
proof -
  from assms have "k = ''added'' \<and> own g ObjectPrototype PropAdded = Some r \<or>
      k = ''removed'' \<and> own g ObjectPrototype PropRemoved = Some r"
    by (simp add: prototypeProperty_def split: if_splits)
  then show ?thesis
  proof
    assume "k = ''added'' \<and> own g ObjectPrototype PropAdded = Some r"
    then have "k = propName PropAdded \<and> own g ObjectPrototype PropAdded = Some r" by simp
    then show ?thesis by blast
  next
    assume "k = ''removed'' \<and> own g ObjectPrototype PropRemoved = Some r"
    then have "k = propName PropRemoved \<and> own g ObjectPrototype PropRemoved = Some r" by simp
    then show ?thesis by blast
  qed
qed

lemma getProp_cong:
  assumes "own g' r p = own g r p" and "own g' ObjectPrototype p = own g ObjectPrototype p"
  shows "getProp g' r p = getProp g r p"
  unfolding getProp_def assms ..

lemma callbacksOf_cong:
  assumes "personalListeners g' = personalListeners g" and "own g' = own g"
    and "elems g' = elems g"
  shows "callbacksOf p g' k = callbacksOf p g k"
  unfolding callbacksOf_def lookupListeners_def prototypeProperty_def getProp_def assms ..

lemma entryFor_inj: "entryFor p g k r \<Longrightarrow> entryFor p g k' r \<Longrightarrow> k = k'"
  by (auto simp: entryFor_def)

lemma entryFor_shape:
  assumes "entryFor p g k r"
  shows "r \<noteq> ObjectPrototype" "r \<noteq> Arr x p" "r = Obj k' \<Longrightarrow> k' = k"
  using assms by (auto simp: entryFor_def)

lemma lookup_entry:
  assumes "sep p g" "lookupListeners g k = Some r"
  shows "(k = ''__proto__'' \<and> r = ObjectPrototype) \<or> (k \<noteq> ''__proto__'' \<and> entryFor p g k r)"
proof (cases "k = ''__proto__''")
  case True
  with assms(2) show ?thesis by (simp add: lookupListeners_def)
next
  case False
  show ?thesis
  proof (cases "personalListeners g k")
    case (Some r0)
    with assms False show ?thesis by (simp add: lookupListeners_def sep_def)
  next
    case None
    show ?thesis
    proof (cases "k \<in> set objectPrototypeNames")
      case True
      with None False assms(2) show ?thesis
        by (simp add: lookupListeners_def prototypeProperty_def entryFor_def)
    next
      case nb: False
      from assms(2) None False have "prototypeProperty g k = Some r"
        by (simp add: lookupListeners_def)
      from prototypeProperty_Some[OF this nb]
      obtain q where q: "k = propName q" "own g ObjectPrototype q = Some r" by blast
      with assms(1) have "q \<noteq> p" "r = Arr ObjectPrototype q" by (auto simp: sep_def)
      with q False show ?thesis by (auto simp: entryFor_def)
    qed
  qed
qed

lemma Arr_neq: "Arr r q \<noteq> r"
  by (induction r) auto

lemma entryFor_cong:
  assumes "own g' ObjectPrototype = own g ObjectPrototype"
  shows "entryFor p g' k r = entryFor p g k r"
  unfolding entryFor_def assms ..

lemma lookup_proto: "lookupListeners g ''__proto__'' = Some ObjectPrototype"
  by (simp add: lookupListeners_def)

lemma register_fields:
  assumes k: "k = String i"
    and L: "L = (case lookupListeners g k of Some r \<Rightarrow> r | None \<Rightarrow> Obj k)"
    and own1: "own1 = (case lookupListeners g k of Some r \<Rightarrow> own g
                        | None \<Rightarrow> (own g)(Obj k := Map.empty))"
    and ex: "ex = (case own1 L p of Some a0 \<Rightarrow> Some a0
                     | None \<Rightarrow> if L = ObjectPrototype then None else own1 ObjectPrototype p)"
    and a: "a = (case ex of Some a0 \<Rightarrow> a0 | None \<Rightarrow> Arr L p)"
    and own2: "own2 = (case ex of Some a0 \<Rightarrow> own1 | None \<Rightarrow> own1(Arr L p := Map.empty))"
    and el2: "el2 = (case ex of Some a0 \<Rightarrow> elems g | None \<Rightarrow> (elems g)(Arr L p := []))"
  shows "personalListeners (registerCallback p i cb g) =
           (if k = ''__proto__'' then personalListeners g else (personalListeners g)(k \<mapsto> L))"
    and "own (registerCallback p i cb g) = own2(L := (own2 L)(p \<mapsto> a))"
    and "elems (registerCallback p i cb g) = el2(a := el2 a @ [cb])"
    and "personalList (registerCallback p i cb g) = personalList g"
    and "fired (registerCallback p i cb g) = fired g"
    and "loadedFaces (registerCallback p i cb g) = loadedFaces g"
  unfolding registerCallback_def Let_def assms storeListeners_def newObject_def newArray_def getProp_def
  by (cases "String i = ''__proto__''"; simp add: lookup_proto split: option.splits)+


lemma sepD:
  assumes "sep p g"
  shows "own g ObjectPrototype p = None"
    and "\<And>r b. own g r p = Some b \<Longrightarrow> b = Arr r p"
    and "\<And>r q b. own g r q = Some b \<Longrightarrow> \<exists>r'. b = Arr r' q"
    and "\<And>q b. own g ObjectPrototype q = Some b \<Longrightarrow> b = Arr ObjectPrototype q"
    and "\<And>k r. personalListeners g k = Some r \<Longrightarrow> entryFor p g k r"
  using assms unfolding sep_def by blast+

lemma getProp_sep:
  assumes "sep p g" "getProp g r p = Some b"
  shows "own g r p = Some b" "b = Arr r p"
proof -
  from assms(2) sepD(1)[OF assms(1)] show "own g r p = Some b"
    by (simp add: getProp_def split: option.splits if_splits)
  then show "b = Arr r p" by (rule sepD(2)[OF assms(1)])
qed

lemma register_same:
  assumes sep: "sep p g" and np: "String i \<noteq> ''__proto__''"
  shows "callbacksOf p (registerCallback p i cb g) k =
       (if k = String i then callbacksOf p g k @ [cb] else callbacksOf p g k)"
    and "sep p (registerCallback p i cb g)"
proof -
  define k0 where "k0 = String i"
  define L where "L = (case lookupListeners g k0 of Some r \<Rightarrow> r | None \<Rightarrow> Obj k0)"
  define own1 where "own1 = (case lookupListeners g k0 of Some r \<Rightarrow> own g
                        | None \<Rightarrow> (own g)(Obj k0 := Map.empty))"
  define ex where "ex = (case own1 L p of Some a0 \<Rightarrow> Some a0
                     | None \<Rightarrow> if L = ObjectPrototype then None else own1 ObjectPrototype p)"
  define a where "a = (case ex of Some a0 \<Rightarrow> a0 | None \<Rightarrow> Arr L p)"
  define own2 where "own2 = (case ex of Some a0 \<Rightarrow> own1 | None \<Rightarrow> own1(Arr L p := Map.empty))"
  define el2 where "el2 = (case ex of Some a0 \<Rightarrow> elems g | None \<Rightarrow> (elems g)(Arr L p := []))"
  define g' where "g' = registerCallback p i cb g"
  note f = register_fields[OF k0_def L_def own1_def ex_def a_def own2_def el2_def, of cb,
      folded g'_def]
  note S = sepD[OF sep]
  have np0: "k0 \<noteq> ''__proto__''" using np by (simp add: k0_def)
  have Lent: "entryFor p g k0 L"
  proof (cases "lookupListeners g k0")
    case None
    then show ?thesis by (simp add: L_def entryFor_def)
  next
    case (Some r)
    with lookup_entry[OF sep Some] np0 show ?thesis by (simp add: L_def)
  qed
  note Lsh = entryFor_shape[OF Lent]
  have own1_OP: "own1 ObjectPrototype = own g ObjectPrototype"
    by (simp add: own1_def split: option.splits)
  have own1_sub: "own1 r q = Some b \<Longrightarrow> own g r q = Some b" for r q b
    by (simp add: own1_def split: option.splits if_splits)
  have own1_L: "own1 L p = (case lookupListeners g k0 of None \<Rightarrow> None | Some r \<Rightarrow> own g L p)"
    by (simp add: own1_def L_def split: option.splits)
  have ex_eq: "ex = own1 L p"
    using S(1) by (simp add: ex_def own1_OP split: option.splits)
  have a_eq: "a = Arr L p"
  proof (cases ex)
    case None
    then show ?thesis by (simp add: a_def)
  next
    case (Some a0)
    with ex_eq have "own1 L p = Some a0" by simp
    then have "own g L p = Some a0" by (rule own1_sub)
    from S(2)[OF this] Some show ?thesis by (simp add: a_def)
  qed
  have own2_sub: "own2 r q = Some b \<Longrightarrow> own g r q = Some b" for r q b
    using own1_sub[of r q b] by (simp add: own2_def split: option.splits if_splits)
  have own2_other: "r \<noteq> Arr L p \<Longrightarrow> own2 r = own1 r" for r
    by (simp add: own2_def split: option.splits)
  have own'_OPf: "own g' ObjectPrototype = own g ObjectPrototype"
    using Lsh(1) by (simp add: f(2) own2_other own1_OP)
  then have own'_OP: "own g' ObjectPrototype q = own g ObjectPrototype q" for q
    by simp
  have tab': "personalListeners g' = (personalListeners g)(k0 \<mapsto> L)"
    using np0 by (simp add: f(1))
  have lk: "lookupListeners g' k = (if k = k0 then Some L else lookupListeners g k)" for k
    using np0 by (simp add: lookupListeners_def tab' prototypeProperty_cong[OF own'_OPf]
        cong: option.case_cong)
  have getL: "getProp g' L p = Some a"
    by (simp add: getProp_def f(2))
  have el_a: "elems g' a = (case ex of None \<Rightarrow> [] | Some a0 \<Rightarrow> elems g a) @ [cb]"
    by (simp add: f(3) el2_def a_eq split: option.splits)
  have old_k0: "callbacksOf p g k0 = (case ex of None \<Rightarrow> [] | Some a0 \<Rightarrow> elems g a)"
  proof (cases "lookupListeners g k0")
    case None
    then show ?thesis by (simp add: callbacksOf_def ex_eq own1_L)
  next
    case (Some r)
    then have r: "r = L" by (simp add: L_def)
    have e: "ex = own g L p" using Some by (simp add: ex_eq own1_L)
    have "getProp g L p = own g L p"
      using S(1) by (simp add: getProp_def split: option.splits)
    with Some r e show ?thesis
      using S(2)[of L] by (auto simp: callbacksOf_def a_eq split: option.splits)
  qed
  have "callbacksOf p g' k0 = elems g' a"
    by (simp add: callbacksOf_def lk getL)
  then have at_k0: "callbacksOf p g' k0 = callbacksOf p g k0 @ [cb]"
    by (simp only: el_a old_k0)
  have other: "callbacksOf p g' k = callbacksOf p g k" if "k \<noteq> k0" for k
  proof (cases "lookupListeners g k")
    case None
    with that show ?thesis by (simp add: callbacksOf_def lk)
  next
    case (Some r)
    from lookup_entry[OF sep Some]
    have rL: "r \<noteq> L \<and> r \<noteq> Arr L p \<and> r \<noteq> Obj k0"
    proof
      assume "k = ''__proto__'' \<and> r = ObjectPrototype"
      with Lsh(1) show ?thesis by simp
    next
      assume e: "k \<noteq> ''__proto__'' \<and> entryFor p g k r"
      then have "r \<noteq> L" using entryFor_inj[of p g k r k0] Lent that by blast
      moreover have "r \<noteq> Arr L p" using entryFor_shape(2) e by blast
      moreover have "r \<noteq> Obj k0" using entryFor_shape(3) e that by blast
      ultimately show ?thesis by simp
    qed
    then have o: "own g' r = own g r"
      by (simp add: f(2) own2_other own1_def split: option.splits)
    then have gp: "getProp g' r p = getProp g r p"
      by (intro getProp_cong) (simp_all add: own'_OP)
    have "elems g' b = elems g b" if b: "getProp g r p = Some b" for b
    proof -
      from getProp_sep(2)[OF sep b] have "b = Arr r p" .
      with rL have "b \<noteq> a" by (simp add: a_eq)
      then show ?thesis by (simp add: f(3) el2_def a_eq[symmetric] split: option.splits)
    qed
    with that Some gp show ?thesis
      by (simp add: callbacksOf_def lk split: option.splits)
  qed
  show "callbacksOf p (registerCallback p i cb g) k =
       (if k = String i then callbacksOf p g k @ [cb] else callbacksOf p g k)"
    using at_k0 other[of k] by (simp add: k0_def g'_def)
  have own'_sub: "own g' r q = Some b \<Longrightarrow> (r = L \<and> q = p \<and> b = a) \<or> own g r q = Some b" for r q b
    using own2_sub[of r q b] by (simp add: f(2) split: if_splits)
  have "sep p g'"
    unfolding sep_def
  proof (intro conjI allI impI)
    show "own g' ObjectPrototype p = None" by (simp add: own'_OP S(1))
  next
    fix r b assume "own g' r p = Some b"
    from own'_sub[OF this] show "b = Arr r p" using S(2) a_eq by blast
  next
    fix r q b assume "own g' r q = Some b"
    from own'_sub[OF this] show "\<exists>r'. b = Arr r' q" using S(3) a_eq by blast
  next
    fix q b assume "own g' ObjectPrototype q = Some b"
    then show "b = Arr ObjectPrototype q" using S(4) by (simp add: own'_OP)
  next
    fix k r assume "personalListeners g' k = Some r"
    then have "entryFor p g k r"
      using Lent S(5)[of k r] by (simp add: tab' split: if_splits)
    then show "entryFor p g' k r" by (simp add: entryFor_cong[OF own'_OPf])
  qed
  then show "sep p (registerCallback p i cb g)" by (simp add: g'_def)
qed


lemma register_other:
  assumes sep: "sep p g" and qp: "q \<noteq> p"
  shows "callbacksOf p (registerCallback q i cb g) k = callbacksOf p g k"
    and "sep p (registerCallback q i cb g)"
proof -
  define k0 where "k0 = String i"
  define L where "L = (case lookupListeners g k0 of Some r \<Rightarrow> r | None \<Rightarrow> Obj k0)"
  define own1 where "own1 = (case lookupListeners g k0 of Some r \<Rightarrow> own g
                        | None \<Rightarrow> (own g)(Obj k0 := Map.empty))"
  define ex where "ex = (case own1 L q of Some a0 \<Rightarrow> Some a0
                     | None \<Rightarrow> if L = ObjectPrototype then None else own1 ObjectPrototype q)"
  define a where "a = (case ex of Some a0 \<Rightarrow> a0 | None \<Rightarrow> Arr L q)"
  define own2 where "own2 = (case ex of Some a0 \<Rightarrow> own1 | None \<Rightarrow> own1(Arr L q := Map.empty))"
  define el2 where "el2 = (case ex of Some a0 \<Rightarrow> elems g | None \<Rightarrow> (elems g)(Arr L q := []))"
  define g' where "g' = registerCallback q i cb g"
  note f = register_fields[OF k0_def L_def own1_def ex_def a_def own2_def el2_def, of cb,
      folded g'_def]
  note S = sepD[OF sep]
  have Lcases: "(k0 = ''__proto__'' \<and> L = ObjectPrototype) \<or>
                (k0 \<noteq> ''__proto__'' \<and> entryFor p g k0 L)"
  proof (cases "lookupListeners g k0")
    case None
    then have "k0 \<noteq> ''__proto__''" by (auto simp: lookup_proto)
    with None show ?thesis by (simp add: L_def entryFor_def)
  next
    case (Some r)
    with lookup_entry[OF sep Some] show ?thesis by (simp add: L_def)
  qed
  have LOP: "(L = ObjectPrototype) = (k0 = ''__proto__'')"
    using Lcases entryFor_shape(1)[of p g k0 L] by blast
  have own1_OP: "own1 ObjectPrototype = own g ObjectPrototype"
    by (simp add: own1_def split: option.splits)
  have own1_sub: "own1 r q' = Some b \<Longrightarrow> own g r q' = Some b" for r q' b
    by (simp add: own1_def split: option.splits if_splits)
  have own1_same: "r \<noteq> Obj k0 \<or> lookupListeners g k0 \<noteq> None \<Longrightarrow> own1 r = own g r" for r
    by (auto simp: own1_def split: option.splits)
  have ex_sub: "ex = Some b \<Longrightarrow> own g L q = Some b \<or> own g ObjectPrototype q = Some b" for b
    using own1_sub[of L q b] own1_sub[of ObjectPrototype q b]
    by (auto simp: ex_def split: option.splits if_splits)
  have a_kind: "\<exists>r'. a = Arr r' q"
  proof (cases ex)
    case None
    then show ?thesis by (simp add: a_def)
  next
    case (Some a0)
    from ex_sub[OF Some] S(3) have "\<exists>r'. a0 = Arr r' q" by blast
    with Some show ?thesis by (simp add: a_def)
  qed
  have ex_OP: "L = ObjectPrototype \<Longrightarrow> ex = own g ObjectPrototype q"
    by (simp add: ex_def own1_OP split: option.splits)
  have a_OP: "a = Arr ObjectPrototype q" if "L = ObjectPrototype"
  proof (cases ex)
    case None
    then show ?thesis using that by (simp add: a_def)
  next
    case (Some a0)
    with ex_OP[OF that] have o: "own g ObjectPrototype q = Some a0" by simp
    from S(4)[OF o] Some show ?thesis by (simp add: a_def)
  qed
  have a_old: "a = b" if "L = ObjectPrototype" "own g ObjectPrototype q = Some b" for b
    using ex_OP[OF that(1)] that(2) by (simp add: a_def)
  have own2_sub: "own2 r q' = Some b \<Longrightarrow> own g r q' = Some b" for r q' b
    using own1_sub[of r q' b] by (simp add: own2_def split: option.splits if_splits)
  have own2_same: "r \<noteq> Arr L q \<or> ex \<noteq> None \<Longrightarrow> own2 r = own1 r" for r
    by (auto simp: own2_def split: option.splits)
  have own2_OP: "own2 ObjectPrototype = own g ObjectPrototype"
    by (simp add: own2_same own1_OP)
  have own'_OP: "own g' ObjectPrototype q' =
      (if L = ObjectPrototype \<and> q' = q then Some a else own g ObjectPrototype q')" for q'
    by (simp add: f(2) own2_OP)
  have own'_p: "own g' r p = own2 r p" for r
    using qp by (simp add: f(2))
  have own'_p_sub: "own g' r p = Some b \<Longrightarrow> own g r p = Some b" for r b
    using own2_sub[of r p b] by (simp add: own'_p)
  have own'_OP_p: "own g' ObjectPrototype p = None"
    using qp S(1) by (simp add: own'_OP)
  have own'_sub: "own g' r q' = Some b \<Longrightarrow> (r = L \<and> q' = q \<and> b = a) \<or> own g r q' = Some b"
    for r q' b
    using own2_sub[of r q' b] by (simp add: f(2) split: if_splits)
  have el_p: "elems g' (Arr r p) = elems g (Arr r p)" for r
  proof -
    from a_kind qp have "Arr r p \<noteq> a" by auto
    moreover from qp have "Arr r p \<noteq> Arr L q" by simp
    ultimately show ?thesis using qp by (simp add: f(3) el2_def split: option.splits)
  qed
  have tab': "personalListeners g' k = (if k = k0 \<and> k0 \<noteq> ''__proto__'' then Some L
                                        else personalListeners g k)" for k
    by (simp add: f(1))
  have ent: "entryFor p g' k r" if e: "entryFor p g k r" for k r
  proof -
    have "own g' ObjectPrototype q' = Some r" if "own g ObjectPrototype q' = Some r" for q'
      using that a_old[of r] by (auto simp: own'_OP)
    with e show ?thesis unfolding entryFor_def by blast
  qed
  have gp_same: "getProp g' r p = getProp g r p" if "own g' r p = own g r p" for r
    using that own'_OP_p S(1) by (intro getProp_cong) simp_all
  have view: "callbacksOf p g' k = callbacksOf p g k" if gp: "lookupListeners g' k = Some r"
      "lookupListeners g k = Some r" "own g' r p = own g r p" for r
  proof -
    have "elems g' b = elems g b" if "getProp g r p = Some b" for b
      using getProp_sep(2)[OF sep that] el_p by simp
    with gp gp_same[OF gp(3)] show ?thesis
      by (simp add: callbacksOf_def split: option.splits)
  qed
  have empty_new: "callbacksOf p g' k = callbacksOf p g k" if "lookupListeners g' k = Some r"
      "lookupListeners g k = None" "own g' r p = None" "r \<noteq> ObjectPrototype" for r
    using that own'_OP_p by (simp add: callbacksOf_def getProp_def)
  have main: "callbacksOf p g' k = callbacksOf p g k"
  proof (cases "k = ''__proto__''")
    case True
    then show ?thesis
      using own'_OP_p S(1) by (simp add: callbacksOf_def lookup_proto getProp_def)
  next
    case kp: False
    show ?thesis
    proof (cases "k = k0")
      case True
      with kp LOP have LnOP: "L \<noteq> ObjectPrototype" by simp
      have lk': "lookupListeners g' k = Some L"
        using True kp by (simp add: lookupListeners_def tab')
      show ?thesis
      proof (cases "lookupListeners g k0")
        case None
        then have "L = Obj k0" by (simp add: L_def)
        then have "own g' L p = None"
          using None by (simp add: own'_p own2_same own1_def)
        from empty_new[OF lk' _ this LnOP] None True show ?thesis by simp
      next
        case (Some r)
        then have r: "r = L" by (simp add: L_def)
        have "own g' L p = own g L p"
          using Some Arr_neq[of L q] by (simp add: own'_p own2_same own1_same)
        from view[OF lk' _ this] Some r True show ?thesis by simp
      qed
    next
      case kk: False
      have tk: "personalListeners g' k = personalListeners g k"
        using kk by (simp add: tab')
      show ?thesis
      proof (cases "lookupListeners g' k = lookupListeners g k")
        case True
        show ?thesis
        proof (cases "lookupListeners g k")
          case None
          with True show ?thesis by (simp add: callbacksOf_def)
        next
          case (Some r)
          from lookup_entry[OF sep Some] kp have e: "entryFor p g k r" by simp
          have n1: "r \<noteq> Obj k0" using entryFor_shape(3)[OF e] kk by blast
          have n2: "r \<noteq> Arr L q \<or> ex \<noteq> None"
          proof (cases "r = Arr L q")
            case False
            then show ?thesis by simp
          next
            case True
            with e have "L = ObjectPrototype \<and> own g ObjectPrototype q = Some r"
              by (auto simp: entryFor_def)
            with ex_OP show ?thesis by simp
          qed
          have "own g' r p = own g r p"
            using n1 n2 by (simp add: own'_p own2_same own1_same)
          from view[OF _ Some this] True Some show ?thesis by simp
        qed
      next
        case False
        with tk kp have d: "personalListeners g k = None"
          "prototypeProperty g' k \<noteq> prototypeProperty g k"
          by (auto simp: lookupListeners_def split: option.splits)
        from prototypeProperty_diff[OF d(2)]
        obtain q' where q': "k = propName q'"
          "own g' ObjectPrototype q' \<noteq> own g ObjectPrototype q'" by blast
        then have LO: "L = ObjectPrototype" and qq: "q' = q"
          and ne: "own g ObjectPrototype q \<noteq> Some a"
          by (auto simp: own'_OP split: if_splits)
        have kq: "k = propName q" using q'(1) qq by simp
        have oN: "own g ObjectPrototype q = None"
        proof (cases "own g ObjectPrototype q")
          case None
          then show ?thesis .
        next
          case (Some b)
          with a_old[OF LO Some] ne show ?thesis by simp
        qed
        have l: "lookupListeners g k = None"
          using d(1) kp oN by (simp add: lookupListeners_def kq prototypeProperty_propName)
        have l': "lookupListeners g' k = Some a"
          using d(1) tk kp LO
          by (simp add: lookupListeners_def kq prototypeProperty_propName own'_OP)
        have kq2: "own g ObjectPrototype q = None" by (rule oN)
        have exN: "ex = None" using ex_OP[OF LO] oN by simp
        have aA: "a = Arr L q" using exN by (simp add: a_def)
        have "own g' a p = None"
          using exN by (simp add: own'_p own2_def aA)
        from empty_new[OF l' l this] aA show ?thesis by simp
      qed
    qed
  qed
  then show "callbacksOf p (registerCallback q i cb g) k = callbacksOf p g k"
    by (simp add: g'_def)
  have "sep p g'"
    unfolding sep_def
  proof (intro conjI allI impI)
    show "own g' ObjectPrototype p = None" by (rule own'_OP_p)
  next
    fix r b assume "own g' r p = Some b"
    from own'_p_sub[OF this] show "b = Arr r p" by (rule S(2))
  next
    fix r q' b assume "own g' r q' = Some b"
    from own'_sub[OF this] show "\<exists>r'. b = Arr r' q'" using S(3) a_kind by blast
  next
    fix q' b assume "own g' ObjectPrototype q' = Some b"
    then show "b = Arr ObjectPrototype q'"
      using S(4)[of q' b] a_OP by (simp add: own'_OP split: if_splits)
  next
    fix k r assume "personalListeners g' k = Some r"
    then have "entryFor p g k r"
      using Lcases S(5)[of k r] by (auto simp: tab' split: if_splits)
    then show "entryFor p g' k r" by (rule ent)
  qed
  then show "sep p (registerCallback q i cb g)" by (simp add: g'_def)
qed


lemma register_last:
  "\<exists>xs. callbacksOf p (registerCallback p i cb g) (String i) = xs @ [cb]"
proof -
  define k0 where "k0 = String i"
  define L where "L = (case lookupListeners g k0 of Some r \<Rightarrow> r | None \<Rightarrow> Obj k0)"
  define own1 where "own1 = (case lookupListeners g k0 of Some r \<Rightarrow> own g
                        | None \<Rightarrow> (own g)(Obj k0 := Map.empty))"
  define ex where "ex = (case own1 L p of Some a0 \<Rightarrow> Some a0
                     | None \<Rightarrow> if L = ObjectPrototype then None else own1 ObjectPrototype p)"
  define a where "a = (case ex of Some a0 \<Rightarrow> a0 | None \<Rightarrow> Arr L p)"
  define own2 where "own2 = (case ex of Some a0 \<Rightarrow> own1 | None \<Rightarrow> own1(Arr L p := Map.empty))"
  define el2 where "el2 = (case ex of Some a0 \<Rightarrow> elems g | None \<Rightarrow> (elems g)(Arr L p := []))"
  define g' where "g' = registerCallback p i cb g"
  note f = register_fields[OF k0_def L_def own1_def ex_def a_def own2_def el2_def, of cb,
      folded g'_def]
  have lk: "lookupListeners g' k0 = Some L"
  proof (cases "k0 = ''__proto__''")
    case True
    then show ?thesis by (simp add: L_def lookup_proto)
  next
    case False
    then show ?thesis by (simp add: lookupListeners_def f(1))
  qed
  have "getProp g' L p = Some a" by (simp add: getProp_def f(2))
  with lk have "callbacksOf p g' k0 = el2 a @ [cb]"
    by (simp add: callbacksOf_def f(3))
  then show ?thesis by (simp add: g'_def k0_def)
qed

lemma sep_cong:
  assumes "personalListeners g' = personalListeners g" and "own g' = own g"
  shows "sep p g' = sep p g"
  unfolding sep_def entryFor_def assms ..

lemma pristine_sep: "pristine g \<Longrightarrow> sep p g"
  by (simp add: pristine_def sep_def)

lemma pristine_callbacks: "pristine g \<Longrightarrow> callbacksOf p g k = []"
  by (simp add: pristine_def callbacksOf_def lookupListeners_def prototypeProperty_def getProp_def
      split: option.splits)

lemma onPersonalAdded_register: "onPersonalAdded i cb g = registerCallback PropAdded i cb g"
  by (simp add: onPersonalAdded_def registerCallback_def)

lemma onPersonalRemoved_register: "onPersonalRemoved i cb g = registerCallback PropRemoved i cb g"
  by (simp add: onPersonalRemoved_def registerCallback_def)

lemma addedCallbacks_callbacksOf: "addedCallbacks g k = callbacksOf PropAdded g k"
  by (simp add: addedCallbacks_def callbacksOf_def)

lemma removedCallbacks_callbacksOf: "removedCallbacks g k = callbacksOf PropRemoved g k"
  by (simp add: removedCallbacks_def callbacksOf_def)


subsection \<open>The list of entries\<close>

lemma getPersonalList_eq: "getPersonalList g = (entries g, g\<lparr>personalList := Some (entries g)\<rparr>)"
  by (cases "personalList g") (simp_all add: getPersonalList_def entries_def)

lemma callbacks_upd [simp]:
  "addedCallbacks (g\<lparr>personalList := l\<rparr>) k = addedCallbacks g k"
  "addedCallbacks (g\<lparr>fired := f\<rparr>) k = addedCallbacks g k"
  "addedCallbacks (g\<lparr>loadedFaces := lf\<rparr>) k = addedCallbacks g k"
  "removedCallbacks (g\<lparr>personalList := l\<rparr>) k = removedCallbacks g k"
  "removedCallbacks (g\<lparr>fired := f\<rparr>) k = removedCallbacks g k"
  "removedCallbacks (g\<lparr>loadedFaces := lf\<rparr>) k = removedCallbacks g k"
  unfolding addedCallbacks_callbacksOf removedCallbacks_callbacksOf
  by (rule callbacksOf_cong; simp)+

lemma triggerPersonalAdded_eq:
  "triggerPersonalAdded i g = g\<lparr>fired := fired g @ map (\<lambda>cb. (cb, String i)) (addedCallbacks g (String i))\<rparr>"
  by (simp add: triggerPersonalAdded_def addedCallbacks_def Let_def split: option.splits)

lemma triggerPersonalRemoved_eq:
  "triggerPersonalRemoved i g = g\<lparr>fired := fired g @ map (\<lambda>cb. (cb, String i)) (removedCallbacks g (String i))\<rparr>"
  by (simp add: triggerPersonalRemoved_def removedCallbacks_def Let_def split: option.splits)

lemma find_None_image: "(find (\<lambda>e. f e = k) xs = None) = (k \<notin> f ` set xs)"
  by (auto simp: find_None_iff)

lemma assignFirst_update:
  "k \<in> f ` set xs \<Longrightarrow>
   \<exists>j<length xs. f (xs ! j) = k \<and> (\<forall>m<j. f (xs ! m) \<noteq> k) \<and>
      assignFirst (\<lambda>e. f e = k) n xs = xs[j := n]"
proof (induction xs)
  case Nil
  then show ?case by simp
next
  case (Cons x xs)
  show ?case
  proof (cases "f x = k")
    case True
    then have "0 < length (x # xs) \<and> f ((x # xs) ! 0) = k \<and> (\<forall>m<0. f ((x # xs) ! m) \<noteq> k) \<and>
      assignFirst (\<lambda>e. f e = k) n (x # xs) = (x # xs)[0 := n]" by simp
    then show ?thesis by blast
  next
    case False
    with Cons.prems have "k \<in> f ` set xs" by auto
    then obtain j where j: "j < length xs" "f (xs ! j) = k" "\<forall>m<j. f (xs ! m) \<noteq> k"
      "assignFirst (\<lambda>e. f e = k) n xs = xs[j := n]"
      using Cons.IH by blast
    have "\<forall>m<Suc j. f ((x # xs) ! m) \<noteq> k"
    proof (intro allI impI)
      fix m assume "m < Suc j"
      then show "f ((x # xs) ! m) \<noteq> k" using False j(3) by (cases m) simp_all
    qed
    with j False have "Suc j < length (x # xs) \<and> f ((x # xs) ! Suc j) = k \<and>
      (\<forall>m<Suc j. f ((x # xs) ! m) \<noteq> k) \<and>
      assignFirst (\<lambda>e. f e = k) n (x # xs) = (x # xs)[Suc j := n]" by simp
    then show ?thesis by blast
  qed
qed

lemma map_assignFirst: "map f (assignFirst (\<lambda>e. f e = f n) n xs) = map f xs"
  by (induction xs) simp_all

lemma upsert_new:
  assumes "npc_id n \<notin> npc_id ` set (entries g)"
  shows "upsert n g =
     g\<lparr>personalList := Some (entries g @ [n]),
       fired := fired g @ map (\<lambda>cb. (cb, npc_id n)) (addedCallbacks g (npc_id n)),
       loadedFaces := loadedFaces g @ (if faceName n \<noteq> [] then [faceName n] else [])\<rparr>"
proof -
  from assms have "find (\<lambda>i. npc_id i = npc_id n) (entries g) = None"
    by (simp add: find_None_image)
  then show ?thesis
    by (simp add: upsert_def getPersonalList_eq triggerPersonalAdded_eq)
qed

lemma upsert_old:
  assumes "npc_id n \<in> npc_id ` set (entries g)"
  shows "upsert n g =
     g\<lparr>personalList := Some (assignFirst (\<lambda>i. npc_id i = npc_id n) n (entries g)),
       loadedFaces := loadedFaces g @ (if faceName n \<noteq> [] then [faceName n] else [])\<rparr>"
proof -
  from assms have "find (\<lambda>i. npc_id i = npc_id n) (entries g) \<noteq> None"
    by (simp add: find_None_image)
  then obtain e where "find (\<lambda>i. npc_id i = npc_id n) (entries g) = Some e" by blast
  then show ?thesis
    by (simp add: upsert_def getPersonalList_eq)
qed

lemma length_filter_neq: "(length (filter P xs) \<noteq> length xs) = (\<exists>x\<in>set xs. \<not> P x)"
proof
  assume "length (filter P xs) \<noteq> length xs"
  then have "filter P xs \<noteq> xs" by auto
  then show "\<exists>x\<in>set xs. \<not> P x" by (auto simp: filter_id_conv)
next
  assume "\<exists>x\<in>set xs. \<not> P x"
  then obtain x where "x \<in> set xs" "\<not> P x" by blast
  then have "length (filter P xs) < length xs" by (rule length_filter_less)
  then show "length (filter P xs) \<noteq> length xs" by simp
qed

lemma length_filter_image:
  "(length (filter (\<lambda>e. f e \<noteq> k) xs) \<noteq> length xs) = (k \<in> f ` set xs)"
  by (auto simp: length_filter_neq)

lemma filter_image_absent: "k \<notin> f ` set xs \<Longrightarrow> filter (\<lambda>e. f e \<noteq> k) xs = xs"
  by (auto simp: filter_id_conv)

lemma removeId_eq:
  "removeId i g =
     (Undefined,
      if String i \<in> npc_id ` set (entries g)
      then g\<lparr>personalList := Some (filter (\<lambda>e. npc_id e \<noteq> String i) (entries g)),
             fired := fired g @ map (\<lambda>cb. (cb, String i)) (removedCallbacks g (String i))\<rparr>
      else g\<lparr>personalList := Some (entries g)\<rparr>)"
proof -
  have len: "(length (filter (\<lambda>e. npc_id e \<noteq> String i) (entries g)) \<noteq> length (entries g))
        = (String i \<in> npc_id ` set (entries g))"
    by (rule length_filter_image)
  have same: "String i \<notin> npc_id ` set (entries g) \<Longrightarrow>
        filter (\<lambda>e. npc_id e \<noteq> String i) (entries g) = entries g"
    by (rule filter_image_absent)
  show ?thesis
    unfolding removeId_def Let_def getPersonalList_eq
    using same
    by (simp add: entries_def[of "g\<lparr>personalList := _\<rparr>"] len triggerPersonalRemoved_eq)
qed

lemma entries_upd [simp]: "entries (g\<lparr>personalList := Some l\<rparr>) = l"
  "entries (g\<lparr>fired := f\<rparr>) = entries g" "entries (g\<lparr>loadedFaces := lf\<rparr>) = entries g"
  "entries (g\<lparr>personalListeners := pl\<rparr>) = entries g"
  "entries (g\<lparr>own := ow\<rparr>) = entries g" "entries (g\<lparr>elems := el\<rparr>) = entries g"
  by (simp_all add: entries_def)

lemma upsert_store:
  "personalListeners (upsert n g) = personalListeners g" "own (upsert n g) = own g"
  "elems (upsert n g) = elems g"
  by (cases "npc_id n \<in> npc_id ` set (entries g)"; simp add: upsert_old upsert_new)+

lemma removeId_store:
  "personalListeners (snd (removeId i g)) = personalListeners g"
  "own (snd (removeId i g)) = own g" "elems (snd (removeId i g)) = elems g"
  by (simp_all add: removeId_eq)

lemma onPersonal_frame:
  "entries (onPersonalAdded i cb g) = entries g" "fired (onPersonalAdded i cb g) = fired g"
  "entries (onPersonalRemoved i cb g) = entries g" "fired (onPersonalRemoved i cb g) = fired g"
  unfolding onPersonalAdded_register onPersonalRemoved_register
  by (simp_all add: entries_def register_fields(4,5)[OF refl refl refl refl refl refl refl])

lemma isPersonalAdded_iff: "isPersonalAdded i g = (String i \<in> npc_id ` set (entries g))"
  by (simp add: isPersonalAdded_def entries_def list_ex_iff image_iff) metis

subsection \<open>The callbacks of a session\<close>

text \<open>
  In a session that starts with nothing registered and registers nothing for a
  property under \<^verbatim>\<open>__proto__\<close>, an event for an id calls the callbacks registered for
  that property and that id, in the order of their registration.
\<close>

lemma applyCall_step:
  assumes sep: "sep p g" and np: "registration p ''__proto__'' c = []"
  shows "sep p (applyCall g c)"
    and "callbacksOf p (applyCall g c) k = callbacksOf p g k @ registration p k c"
proof -
  have "sep p (applyCall g c) \<and>
        callbacksOf p (applyCall g c) k = callbacksOf p g k @ registration p k c"
  proof (cases c)
    case (OnPersonalAdded i cb)
    show ?thesis
    proof (cases "p = PropAdded")
      case True
      with np OnPersonalAdded have "String i \<noteq> ''__proto__''"
        by (simp split: if_splits)
      from register_same(1)[OF sep[unfolded True] this, of cb k]
        register_same(2)[OF sep[unfolded True] this, of cb] True OnPersonalAdded
      show ?thesis by (simp add: onPersonalAdded_register)
    next
      case False
      then have "PropAdded \<noteq> p" by simp
      from register_other(1)[OF sep this, of i cb k] register_other(2)[OF sep this, of i cb]
        False OnPersonalAdded
      show ?thesis by (simp add: onPersonalAdded_register)
    qed
  next
    case (OnPersonalRemoved i cb)
    show ?thesis
    proof (cases "p = PropRemoved")
      case True
      with np OnPersonalRemoved have "String i \<noteq> ''__proto__''"
        by (simp split: if_splits)
      from register_same(1)[OF sep[unfolded True] this, of cb k]
        register_same(2)[OF sep[unfolded True] this, of cb] True OnPersonalRemoved
      show ?thesis by (simp add: onPersonalRemoved_register)
    next
      case False
      then have "PropRemoved \<noteq> p" by simp
      from register_other(1)[OF sep this, of i cb k] register_other(2)[OF sep this, of i cb]
        False OnPersonalRemoved
      show ?thesis by (simp add: onPersonalRemoved_register)
    qed
  next
    case (AddPersonalToList n)
    with sep show ?thesis
      by (simp add: sep_cong[OF upsert_store(1,2)] callbacksOf_cong[OF upsert_store])
  next
    case (RemovePersonalFromList i)
    with sep show ?thesis
      by (simp add: sep_cong[OF removeId_store(1,2)] callbacksOf_cong[OF removeId_store])
  qed
  then show "sep p (applyCall g c)"
    and "callbacksOf p (applyCall g c) k = callbacksOf p g k @ registration p k c"
    by simp_all
qed

lemma session_callbacks:
  assumes "pristine g0"
  shows "concat (map (registration p ''__proto__'') calls) = [] \<Longrightarrow>
         sep p (foldl applyCall g0 calls) \<and>
         callbacksOf p (foldl applyCall g0 calls) k = concat (map (registration p k) calls)"
proof (induction calls rule: rev_induct)
  case Nil
  from assms show ?case by (simp add: pristine_sep pristine_callbacks)
next
  case (snoc c calls)
  from snoc.prems have np: "concat (map (registration p ''__proto__'') calls) = []"
    and c: "registration p ''__proto__'' c = []"
    by simp_all
  from snoc.IH[OF np] have s: "sep p (foldl applyCall g0 calls)"
    and v: "callbacksOf p (foldl applyCall g0 calls) k = concat (map (registration p k) calls)"
    by simp_all
  from applyCall_step(1)[OF s c] applyCall_step(2)[OF s c, of k] v
  show ?case by simp
qed

lemma session_added:
  assumes "pristine g0" and "registeredAdded calls ''__proto__'' = []"
  shows "addedCallbacks (foldl applyCall g0 calls) k = registeredAdded calls k"
  using session_callbacks[OF assms(1), of PropAdded calls k] assms(2)
  by (simp add: registeredAdded_def addedCallbacks_callbacksOf)

lemma session_removed:
  assumes "pristine g0" and "registeredRemoved calls ''__proto__'' = []"
  shows "removedCallbacks (foldl applyCall g0 calls) k = registeredRemoved calls k"
  using session_callbacks[OF assms(1), of PropRemoved calls k] assms(2)
  by (simp add: registeredRemoved_def removedCallbacks_callbacksOf)

lemma registered_last:
  "\<exists>xs. addedCallbacks (onPersonalAdded i cb g) (String i) = xs @ [cb]"
  "\<exists>xs. removedCallbacks (onPersonalRemoved i cb g) (String i) = xs @ [cb]"
  unfolding addedCallbacks_callbacksOf removedCallbacks_callbacksOf
    onPersonalAdded_register onPersonalRemoved_register
  by (rule register_last)+

lemma image_filter_absent: "k \<notin> f ` set (filter (\<lambda>e. f e \<noteq> k) xs)"
  by auto

lemma distinct_upsert:
  assumes "distinct (map npc_id (entries g))"
  shows "distinct (map npc_id (entries (upsert n g)))"
proof (cases "npc_id n \<in> npc_id ` set (entries g)")
  case True
  then show ?thesis using assms by (simp add: upsert_old map_assignFirst)
next
  case False
  then show ?thesis using assms by (simp add: upsert_new)
qed

lemma distinct_removeId:
  assumes "distinct (map npc_id (entries g))"
  shows "distinct (map npc_id (entries (snd (removeId i g))))"
  using assms by (simp add: removeId_eq distinct_map_filter)

lemma distinct_applyOp:
  "distinct (map npc_id (entries g)) \<Longrightarrow> distinct (map npc_id (entries (applyOp g op)))"
  by (cases op) (simp_all add: distinct_upsert distinct_removeId)

lemma distinct_foldl_applyOp:
  "distinct (map npc_id (entries g)) \<Longrightarrow> distinct (map npc_id (entries (foldl applyOp g ops)))"
  by (induction ops arbitrary: g) (simp_all add: distinct_applyOp)

lemma upsert_in_session:
  assumes "pristine g0" and "registeredAdded calls ''__proto__'' = []"
    and "npc_id n \<notin> npc_id ` set (entries (foldl applyCall g0 calls))"
  shows "entries (upsert n (foldl applyCall g0 calls)) = entries (foldl applyCall g0 calls) @ [n]"
    and "fired (upsert n (foldl applyCall g0 calls)) =
           fired (foldl applyCall g0 calls) @
           map (\<lambda>cb. (cb, npc_id n)) (registeredAdded calls (npc_id n))"
  by (simp_all add: upsert_new[OF assms(3)] session_added[OF assms(1,2)])

lemma upsert_existing:
  assumes "npc_id n \<in> npc_id ` set (entries g)"
  shows "\<exists>k<length (entries g).
          npc_id (entries g ! k) = npc_id n \<and> (\<forall>j<k. npc_id (entries g ! j) \<noteq> npc_id n) \<and>
          entries (upsert n g) = (entries g)[k := n]"
    and "fired (upsert n g) = fired g"
  using assignFirst_update[OF assms, of n] by (simp_all add: upsert_old[OF assms])

text \<open>
  Claim C2, where the code departs from it. A session registers the callback 1 with
  \<^verbatim>\<open>onPersonalAdded\<close> under the id \<^verbatim>\<open>__proto__\<close> and the callback 2 under the id \<^verbatim>\<open>x\<close>,
  so that the callbacks registered for \<^verbatim>\<open>x\<close> are the callback 2, and then upserts a
  record with the id \<^verbatim>\<open>x\<close>, which no entry has. The record is appended, and the two
  callbacks are called with \<^verbatim>\<open>x\<close>, first the one registered under \<^verbatim>\<open>__proto__\<close>: that
  registration gave \<^verbatim>\<open>Object.prototype\<close> the array \<^verbatim>\<open>added\<close>, which the entry created
  for \<^verbatim>\<open>x\<close> reads as its own and appends to. With the callback 1 registered under
  \<^verbatim>\<open>y\<close> instead, the callback 2 alone is called.
\<close>

theorem upsert_calls_callbacks_of_proto:
  "registeredAdded
     [OnPersonalAdded (StrId ''__proto__'') 1, OnPersonalAdded (StrId ''x'') 2] ''x'' = [2 :: nat] \<and>
   entries (upsert (newDraft\<lparr>npc_id := ''x'', name := ''A''\<rparr>)
     (foldl applyCall (newGame :: nat game)
        [OnPersonalAdded (StrId ''__proto__'') 1, OnPersonalAdded (StrId ''x'') 2]))
   = [newDraft\<lparr>npc_id := ''x'', name := ''A''\<rparr>] \<and>
   fired (upsert (newDraft\<lparr>npc_id := ''x'', name := ''A''\<rparr>)
     (foldl applyCall (newGame :: nat game)
        [OnPersonalAdded (StrId ''__proto__'') 1, OnPersonalAdded (StrId ''x'') 2]))
   = [(1, ''x''), (2, ''x'')] \<and>
   fired (upsert (newDraft\<lparr>npc_id := ''x'', name := ''A''\<rparr>)
     (foldl applyCall (newGame :: nat game)
        [OnPersonalAdded (StrId ''y'') 1, OnPersonalAdded (StrId ''x'') 2]))
   = [(2, ''x'')]"
  by code_simp

text \<open>
  Claim C5, as the code has it. \<^verbatim>\<open>removeId\<close> deletes the entries with the id and
  leaves the listeners as they are; when there was such an entry it calls, with the
  id, the callbacks that \<^verbatim>\<open>_triggerPersonalRemoved\<close> finds for the id, and for an id
  that no entry has it leaves the entries and the log of calls as they are. In a
  session that starts with nothing registered and in which \<^verbatim>\<open>onPersonalRemoved\<close> is
  not called with the id \<^verbatim>\<open>__proto__\<close>, the callbacks found for an id are the callbacks
  registered with \<^verbatim>\<open>onPersonalRemoved\<close> for that id, once for each registration and in
  the order of the registrations. \<^verbatim>\<open>removeId\<close> has no error branch, and a call
  evaluates to \<^verbatim>\<open>undefined\<close> in both cases: whether an entry was deleted is not
  returned.
\<close>

theorem removeId_deletes_and_notifies:
  "fst (removeId i g) = Undefined \<and>
   entries (snd (removeId i g)) = filter (\<lambda>e. npc_id e \<noteq> String i) (entries g) \<and>
   String i \<notin> npc_id ` set (entries (snd (removeId i g))) \<and>
   personalListeners (snd (removeId i g)) = personalListeners g \<and>
   own (snd (removeId i g)) = own g \<and>
   elems (snd (removeId i g)) = elems g \<and>
   (String i \<in> npc_id ` set (entries g) \<longrightarrow>
      fired (snd (removeId i g)) =
        fired g @ map (\<lambda>cb. (cb, String i)) (removedCallbacks g (String i))) \<and>
   (String i \<notin> npc_id ` set (entries g) \<longrightarrow>
      snd (removeId i g) = g\<lparr>personalList := Some (entries g)\<rparr> \<and>
      entries (snd (removeId i g)) = entries g \<and>
      fired (snd (removeId i g)) = fired g) \<and>
   (pristine g0 \<and> registeredRemoved calls ''__proto__'' = [] \<longrightarrow>
      removedCallbacks (foldl applyCall g0 calls) k = registeredRemoved calls k) \<and>
   (pristine g0 \<and> registeredRemoved calls ''__proto__'' = [] \<and>
    String i \<in> npc_id ` set (entries (foldl applyCall g0 calls)) \<longrightarrow>
      fired (snd (removeId i (foldl applyCall g0 calls))) =
        fired (foldl applyCall g0 calls) @
        map (\<lambda>cb. (cb, String i)) (registeredRemoved calls (String i)))"
  (is "?R \<and> ?E \<and> ?N \<and> ?L \<and> ?O \<and> ?A \<and> ?P \<and> ?Q \<and> ?S \<and> ?T")
proof -
  have main: "?E \<and> ?N \<and> ?P \<and> ?Q"
  proof (cases "String i \<in> npc_id ` set (entries g)")
    case True
    then show ?thesis
      using image_filter_absent[of "String i" npc_id "entries g"]
      by (simp add: removeId_eq del: set_filter)
  next
    case False
    then show ?thesis
      using filter_image_absent[OF False] by (simp add: removeId_eq)
  qed
  have r: ?R by (simp add: removeId_eq)
  have st: ?L ?O ?A by (rule removeId_store)+
  have s: ?S
    using session_removed by blast
  have t: ?T
  proof
    assume a: "pristine g0 \<and> registeredRemoved calls ''__proto__'' = [] \<and>
      String i \<in> npc_id ` set (entries (foldl applyCall g0 calls))"
    then have "removedCallbacks (foldl applyCall g0 calls) (String i) =
        registeredRemoved calls (String i)"
      by (simp add: session_removed)
    with a show "fired (snd (removeId i (foldl applyCall g0 calls))) =
        fired (foldl applyCall g0 calls) @
        map (\<lambda>cb. (cb, String i)) (registeredRemoved calls (String i))"
      by (simp add: removeId_eq)
  qed
  from r main st s t show ?thesis by blast
qed

theorem removeId_deletes_and_notifies_witness:
  "registeredRemoved
     [OnPersonalRemoved (StrId ''7'') (3 :: nat), OnPersonalAdded (StrId ''7'') 9,
      AddPersonalToList (newDraft\<lparr>npc_id := ''7'', name := ''A''\<rparr>),
      OnPersonalRemoved (StrId ''8'') 4, OnPersonalRemoved (StrId ''7'') 5] ''__proto__'' = [] \<and>
   String (StrId ''7'')
     \<in> npc_id ` set (entries (foldl applyCall (newGame :: nat game)
         [OnPersonalRemoved (StrId ''7'') 3, OnPersonalAdded (StrId ''7'') 9,
          AddPersonalToList (newDraft\<lparr>npc_id := ''7'', name := ''A''\<rparr>),
          OnPersonalRemoved (StrId ''8'') 4, OnPersonalRemoved (StrId ''7'') 5])) \<and>
   fired (foldl applyCall (newGame :: nat game)
         [OnPersonalRemoved (StrId ''7'') 3, OnPersonalAdded (StrId ''7'') 9,
          AddPersonalToList (newDraft\<lparr>npc_id := ''7'', name := ''A''\<rparr>),
          OnPersonalRemoved (StrId ''8'') 4, OnPersonalRemoved (StrId ''7'') 5])
   = [(9, ''7'')] \<and>
   fired (snd (removeId (StrId ''7'') (foldl applyCall (newGame :: nat game)
         [OnPersonalRemoved (StrId ''7'') 3, OnPersonalAdded (StrId ''7'') 9,
          AddPersonalToList (newDraft\<lparr>npc_id := ''7'', name := ''A''\<rparr>),
          OnPersonalRemoved (StrId ''8'') 4, OnPersonalRemoved (StrId ''7'') 5])))
   = [(9, ''7''), (3, ''7''), (5, ''7'')] \<and>
   entries (snd (removeId (StrId ''7'') (foldl applyCall (newGame :: nat game)
         [OnPersonalRemoved (StrId ''7'') 3, OnPersonalAdded (StrId ''7'') 9,
          AddPersonalToList (newDraft\<lparr>npc_id := ''7'', name := ''A''\<rparr>),
          OnPersonalRemoved (StrId ''8'') 4, OnPersonalRemoved (StrId ''7'') 5])))
   = [] \<and>
   String (StrId ''8'')
     \<notin> npc_id ` set (entries (foldl applyCall (newGame :: nat game)
         [OnPersonalRemoved (StrId ''7'') 3, OnPersonalAdded (StrId ''7'') 9,
          AddPersonalToList (newDraft\<lparr>npc_id := ''7'', name := ''A''\<rparr>),
          OnPersonalRemoved (StrId ''8'') 4, OnPersonalRemoved (StrId ''7'') 5])) \<and>
   fired (snd (removeId (StrId ''8'') (foldl applyCall (newGame :: nat game)
         [OnPersonalRemoved (StrId ''7'') 3, OnPersonalAdded (StrId ''7'') 9,
          AddPersonalToList (newDraft\<lparr>npc_id := ''7'', name := ''A''\<rparr>),
          OnPersonalRemoved (StrId ''8'') 4, OnPersonalRemoved (StrId ''7'') 5])))
   = [(9, ''7'')]"
proof -
  define calls :: "nat api_call list" where
    "calls = [OnPersonalRemoved (StrId ''7'') 3, OnPersonalAdded (StrId ''7'') 9,
          AddPersonalToList (newDraft\<lparr>npc_id := ''7'', name := ''A''\<rparr>),
          OnPersonalRemoved (StrId ''8'') 4, OnPersonalRemoved (StrId ''7'') 5]"
  define g7 :: "nat game" where "g7 = foldl applyCall newGame calls"
  have pr: "pristine (newGame :: nat game)"
    by (simp add: pristine_def newGame_def)
  have np: "registeredRemoved calls ''__proto__'' = []"
    unfolding calls_def by code_simp
  have reg: "registeredRemoved calls (String (StrId ''7'')) = [3, 5]"
    unfolding calls_def by code_simp
  have present: "String (StrId ''7'') \<in> npc_id ` set (entries g7)"
    unfolding g7_def calls_def by code_simp
  have absent: "String (StrId ''8'') \<notin> npc_id ` set (entries g7)"
    unfolding g7_def calls_def by code_simp
  have f0: "fired g7 = [(9, ''7'')]"
    unfolding g7_def calls_def by code_simp
  note inst = removeId_deletes_and_notifies[where g = g7 and ?g0.0 = "newGame :: nat game"
      and calls = calls]
  from inst[where i = "StrId ''7''"] pr np present
  have 1: "fired (snd (removeId (StrId ''7'') g7)) =
        fired g7 @ map (\<lambda>cb. (cb, String (StrId ''7''))) (registeredRemoved calls (String (StrId ''7'')))"
    unfolding g7_def by blast
  from inst[where i = "StrId ''7''"]
  have 2: "entries (snd (removeId (StrId ''7'') g7)) =
        filter (\<lambda>e. npc_id e \<noteq> String (StrId ''7'')) (entries g7)"
    by blast
  from inst[where i = "StrId ''8''"] absent
  have 3: "fired (snd (removeId (StrId ''8'') g7)) = fired g7"
    by blast
  have e: "filter (\<lambda>e. npc_id e \<noteq> String (StrId ''7'')) (entries g7) = []"
    unfolding g7_def calls_def by code_simp
  have f1: "fired (snd (removeId (StrId ''7'') g7)) = [(9, ''7''), (3, ''7''), (5, ''7'')]"
    using 1 f0 reg by simp
  have e1: "entries (snd (removeId (StrId ''7'') g7)) = []"
    using 2 e by simp
  have f2: "fired (snd (removeId (StrId ''8'') g7)) = [(9, ''7'')]"
    using 3 f0 by simp
  show ?thesis
    using np present f0 f1 e1 absent f2 unfolding g7_def calls_def by blast
qed

text \<open>
  The claim as written fails on the value returned: with the id \<^verbatim>\<open>"7"\<close> in the list,
  \<^verbatim>\<open>removeId("7")\<close> deletes the entry and evaluates to \<^verbatim>\<open>undefined\<close>, not to
  \<^verbatim>\<open>true\<close>. And it fails on the callbacks of a session that has called
  \<^verbatim>\<open>onPersonalRemoved\<close> with the id \<^verbatim>\<open>__proto__\<close>: with the callback 1 registered under
  \<^verbatim>\<open>__proto__\<close> and then the callback 2 under \<^verbatim>\<open>x\<close>, the callbacks registered for \<^verbatim>\<open>x\<close>
  are the callback 2, and removing the entry \<^verbatim>\<open>x\<close> calls both.
\<close>

theorem removeId_returns_undefined_counterexample:
  "isPersonalAdded (StrId ''7'')
     (upsert (newDraft\<lparr>npc_id := ''7'', name := ''A''\<rparr>) (newGame :: nat game)) \<and>
   entries (snd (removeId (StrId ''7'')
     (upsert (newDraft\<lparr>npc_id := ''7'', name := ''A''\<rparr>) (newGame :: nat game)))) = [] \<and>
   fst (removeId (StrId ''7'')
     (upsert (newDraft\<lparr>npc_id := ''7'', name := ''A''\<rparr>) (newGame :: nat game))) = Undefined \<and>
   fst (removeId (StrId ''7'')
     (upsert (newDraft\<lparr>npc_id := ''7'', name := ''A''\<rparr>) (newGame :: nat game))) \<noteq> Boolean True \<and>
   registeredRemoved
     [OnPersonalRemoved (StrId ''__proto__'') 1, OnPersonalRemoved (StrId ''x'') 2,
      AddPersonalToList (newDraft\<lparr>npc_id := ''x'', name := ''A''\<rparr>)] ''x'' = [2 :: nat] \<and>
   fired (snd (removeId (StrId ''x'') (foldl applyCall (newGame :: nat game)
     [OnPersonalRemoved (StrId ''__proto__'') 1, OnPersonalRemoved (StrId ''x'') 2,
      AddPersonalToList (newDraft\<lparr>npc_id := ''x'', name := ''A''\<rparr>)])))
   = [(1, ''x''), (2, ''x'')]"
  by code_simp

text \<open>
  Claim C7. The query and the two registrations turn the id they are given into a
  string first, so a number and the string that \<^verbatim>\<open>String\<close> makes of it are the same
  id, in every state: \<^verbatim>\<open>isPersonalAdded\<close> gives one answer for both, which says whether
  an entry with that string as id is in the list; registering under the number is
  registering under the string; and a callback registered under a number is called,
  after the callbacks found there before, when an entry with that string as id is
  added, or removed. The string of a number is its decimal numeral: \<^verbatim>\<open>parseInt\<close> reads
  the number back, two numbers with one string are equal, and \<open>0\<close>, \<open>7\<close>, \<open>42\<close>,
  \<open>-120\<close> and the largest safe integer are printed as \<^verbatim>\<open>"0"\<close>, \<^verbatim>\<open>"7"\<close>, \<^verbatim>\<open>"42"\<close>,
  \<^verbatim>\<open>"-120"\<close> and \<^verbatim>\<open>"9007199254740991"\<close>; so \<^verbatim>\<open>isPersonalAdded(7)\<close> and
  \<^verbatim>\<open>isPersonalAdded("7")\<close> agree.
\<close>

theorem id_forms_normalised:
  "isPersonalAdded (NumId m) g = isPersonalAdded (StrId (String (NumId m))) g \<and>
   isPersonalAdded i g = (String i \<in> npc_id ` set (entries g)) \<and>
   parseInt (String (NumId m)) = Num (int_of m) \<and>
   (String (NumId m) = String (NumId m')) = (m = m') \<and>
   String (NumId (SafeInteger 0)) = ''0'' \<and>
   String (NumId (SafeInteger 7)) = ''7'' \<and>
   String (NumId (SafeInteger 42)) = ''42'' \<and>
   String (NumId (SafeInteger (- 120))) = ''-120'' \<and>
   String (NumId (SafeInteger 9007199254740991)) = ''9007199254740991'' \<and>
   isPersonalAdded (NumId (SafeInteger 7)) g = isPersonalAdded (StrId ''7'') g \<and>
   onPersonalAdded (NumId m) cb g = onPersonalAdded (StrId (String (NumId m))) cb g \<and>
   onPersonalRemoved (NumId m) cb g = onPersonalRemoved (StrId (String (NumId m))) cb g \<and>
   (\<not> isPersonalAdded (NumId m) g \<and> npc_id r = String (NumId m) \<longrightarrow>
      (\<exists>xs. fired (upsert r (onPersonalAdded (NumId m) cb g)) =
             fired g @ map (\<lambda>c. (c, npc_id r)) (xs @ [cb]))) \<and>
   (isPersonalAdded (NumId m) g \<longrightarrow>
      (\<exists>xs. fired (snd (removeId (StrId (String (NumId m))) (onPersonalRemoved (NumId m) cb g))) =
             fired g @ map (\<lambda>c. (c, String (NumId m))) (xs @ [cb])))"
proof (intro conjI impI)
  show "isPersonalAdded (NumId m) g = isPersonalAdded (StrId (String (NumId m))) g"
    by (simp add: isPersonalAdded_def)
  show "isPersonalAdded i g = (String i \<in> npc_id ` set (entries g))"
    by (rule isPersonalAdded_iff)
  show "parseInt (String (NumId m)) = Num (int_of m)"
    by (rule parseInt_String)
  show "(String (NumId m) = String (NumId m')) = (m = m')"
    by (rule String_NumId_inject)
  have d: "digits 0 = ''0''" "digits 7 = ''7''" "digits 42 = ''42''" "digits 120 = ''120''"
    by code_simp+
  have dm: "digits 9007199254740991 = ''9007199254740991''"
    by (simp add: digits_cases) code_simp
  show "String (NumId (SafeInteger 0)) = ''0''"
    using d by (simp add: int_of_SafeInteger)
  show s7: "String (NumId (SafeInteger 7)) = ''7''"
    using d by (simp add: int_of_SafeInteger)
  show "String (NumId (SafeInteger 42)) = ''42''"
    using d by (simp add: int_of_SafeInteger)
  show "String (NumId (SafeInteger (- 120))) = ''-120''"
    using d by (simp add: int_of_SafeInteger)
  show "String (NumId (SafeInteger 9007199254740991)) = ''9007199254740991''"
    using dm by (simp add: int_of_SafeInteger)
  from s7 show "isPersonalAdded (NumId (SafeInteger 7)) g = isPersonalAdded (StrId ''7'') g"
    by (simp add: isPersonalAdded_def)
  show "onPersonalAdded (NumId m) cb g = onPersonalAdded (StrId (String (NumId m))) cb g"
    by (simp add: onPersonalAdded_def)
  show "onPersonalRemoved (NumId m) cb g = onPersonalRemoved (StrId (String (NumId m))) cb g"
    by (simp add: onPersonalRemoved_def)
next
  assume a: "\<not> isPersonalAdded (NumId m) g \<and> npc_id r = String (NumId m)"
  then have "npc_id r \<notin> npc_id ` set (entries (onPersonalAdded (NumId m) cb g))"
    by (simp add: isPersonalAdded_iff onPersonal_frame)
  from upsert_new[OF this] a registered_last(1)[of "NumId m" cb g]
  show "\<exists>xs. fired (upsert r (onPersonalAdded (NumId m) cb g)) =
             fired g @ map (\<lambda>c. (c, npc_id r)) (xs @ [cb])"
    by (auto simp: onPersonal_frame)
next
  assume a: "isPersonalAdded (NumId m) g"
  then have "String (NumId m) \<in> npc_id ` set (entries (onPersonalRemoved (NumId m) cb g))"
    by (simp add: isPersonalAdded_iff onPersonal_frame)
  with registered_last(2)[of "NumId m" cb g]
  show "\<exists>xs. fired (snd (removeId (StrId (String (NumId m))) (onPersonalRemoved (NumId m) cb g))) =
             fired g @ map (\<lambda>c. (c, String (NumId m))) (xs @ [cb])"
    by (auto simp: removeId_eq onPersonal_frame)
qed

theorem id_forms_normalised_witness:
  "\<not> isPersonalAdded (NumId (SafeInteger 7)) (newGame :: nat game) \<and>
   npc_id (newDraft\<lparr>npc_id := ''7'', name := ''A''\<rparr>) = String (NumId (SafeInteger 7)) \<and>
   last (fired (upsert (newDraft\<lparr>npc_id := ''7'', name := ''A''\<rparr>)
            (onPersonalAdded (NumId (SafeInteger 7)) 1
               (onPersonalAdded (StrId ''7'') 2 (newGame :: nat game)))))
   = (1, ''7'') \<and>
   fired (upsert (newDraft\<lparr>npc_id := ''7'', name := ''A''\<rparr>)
            (onPersonalAdded (NumId (SafeInteger 7)) 1
               (onPersonalAdded (StrId ''7'') 2 (newGame :: nat game))))
   = [(2, ''7''), (1, ''7'')] \<and>
   isPersonalAdded (NumId (SafeInteger 7))
     (upsert (newDraft\<lparr>npc_id := ''7'', name := ''A''\<rparr>) (newGame :: nat game)) \<and>
   isPersonalAdded (StrId ''7'')
     (upsert (newDraft\<lparr>npc_id := ''7'', name := ''A''\<rparr>) (newGame :: nat game)) \<and>
   last (fired (snd (removeId (StrId (String (NumId (SafeInteger 7))))
     (onPersonalRemoved (NumId (SafeInteger 7)) 1
        (upsert (newDraft\<lparr>npc_id := ''7'', name := ''A''\<rparr>) (newGame :: nat game))))))
   = (1, ''7'')"
proof -
  define a where "a = newDraft\<lparr>npc_id := ''7'', name := ''A''\<rparr>"
  define g2 :: "nat game" where "g2 = onPersonalAdded (StrId ''7'') 2 newGame"
  define g7 :: "nat game" where "g7 = upsert a newGame"
  note n = id_forms_normalised[where m = "SafeInteger 7" and i = "StrId ''7''"
      and m' = "SafeInteger 7" and r = a and cb = 1]
  from n[where g = g2] have s7: "String (NumId (SafeInteger 7)) = ''7''"
    by (elim conjE)
  have ida: "npc_id a = ''7''"
    unfolding a_def by simp
  have q0: "\<not> isPersonalAdded (StrId ''7'') (newGame :: nat game)"
    "\<not> isPersonalAdded (StrId ''7'') g2"
    unfolding g2_def by code_simp+
  from n[where g = "newGame :: nat game"]
  have "isPersonalAdded (NumId (SafeInteger 7)) (newGame :: nat game)
      = isPersonalAdded (StrId ''7'') (newGame :: nat game)"
    by (elim conjE)
  with q0(1) have h0: "\<not> isPersonalAdded (NumId (SafeInteger 7)) (newGame :: nat game)"
    by simp
  from n[where g = g2]
  have "isPersonalAdded (NumId (SafeInteger 7)) g2 = isPersonalAdded (StrId ''7'') g2"
    by (elim conjE)
  with q0(2) have h1: "\<not> isPersonalAdded (NumId (SafeInteger 7)) g2"
    by simp
  have q7: "isPersonalAdded (StrId ''7'') g7"
    unfolding g7_def a_def by code_simp
  from n[where g = g7]
  have "isPersonalAdded (NumId (SafeInteger 7)) g7 = isPersonalAdded (StrId ''7'') g7"
    by (elim conjE)
  with q7 have h2: "isPersonalAdded (NumId (SafeInteger 7)) g7"
    by simp
  from n[where g = g2]
  have "\<not> isPersonalAdded (NumId (SafeInteger 7)) g2 \<and> npc_id a = String (NumId (SafeInteger 7)) \<longrightarrow>
      (\<exists>xs. fired (upsert a (onPersonalAdded (NumId (SafeInteger 7)) 1 g2)) =
             fired g2 @ map (\<lambda>c. (c, npc_id a)) (xs @ [1]))"
    by (elim conjE)
  with h1 ida s7
  obtain xs where "fired (upsert a (onPersonalAdded (NumId (SafeInteger 7)) 1 g2)) =
        fired g2 @ map (\<lambda>c. (c, npc_id a)) (xs @ [1])"
    by auto
  then have l1: "last (fired (upsert a (onPersonalAdded (NumId (SafeInteger 7)) 1 g2))) = (1, ''7'')"
    by (simp add: ida)
  from n[where g = g7]
  have "isPersonalAdded (NumId (SafeInteger 7)) g7 \<longrightarrow>
      (\<exists>xs. fired (snd (removeId (StrId (String (NumId (SafeInteger 7))))
                (onPersonalRemoved (NumId (SafeInteger 7)) 1 g7))) =
             fired g7 @ map (\<lambda>c. (c, String (NumId (SafeInteger 7)))) (xs @ [1]))"
    by (elim conjE)
  with h2
  obtain ys where "fired (snd (removeId (StrId (String (NumId (SafeInteger 7))))
        (onPersonalRemoved (NumId (SafeInteger 7)) 1 g7))) =
        fired g7 @ map (\<lambda>c. (c, String (NumId (SafeInteger 7)))) (ys @ [1])"
    by auto
  then have "fired (snd (removeId (StrId (String (NumId (SafeInteger 7))))
        (onPersonalRemoved (NumId (SafeInteger 7)) 1 g7))) =
        fired g7 @ map (\<lambda>c. (c, ''7'')) (ys @ [1])"
    by (simp only: s7)
  then have l2: "last (fired (snd (removeId (StrId (String (NumId (SafeInteger 7))))
        (onPersonalRemoved (NumId (SafeInteger 7)) 1 g7)))) = (1, ''7'')"
    by (simp del: String.simps)
  from n[where g = g2]
  have "onPersonalAdded (NumId (SafeInteger 7)) 1 g2
      = onPersonalAdded (StrId (String (NumId (SafeInteger 7)))) 1 g2"
    by (elim conjE)
  then have "onPersonalAdded (NumId (SafeInteger 7)) 1 g2 = onPersonalAdded (StrId ''7'') 1 g2"
    by (simp only: s7)
  moreover have "fired (upsert a (onPersonalAdded (StrId ''7'') 1 g2)) = [(2, ''7''), (1, ''7'')]"
    unfolding g2_def a_def by code_simp
  ultimately have f1: "fired (upsert a (onPersonalAdded (NumId (SafeInteger 7)) 1 g2))
      = [(2, ''7''), (1, ''7'')]"
    by simp
  have ids: "npc_id a = String (NumId (SafeInteger 7))"
    using ida s7 by simp
  show ?thesis
    using h0 ids l1 f1 h2 q7 l2 unfolding g2_def g7_def a_def by (intro conjI)
qed

text \<open>
  Claim C9. The ids of the stored entries are pairwise distinct after any sequence of
  \<^verbatim>\<open>upsert\<close> and \<^verbatim>\<open>removeId\<close>, from the empty registry and from any registry whose ids
  are distinct; two records with one id, upserted in order into the empty registry,
  leave one entry, the second record.
\<close>

theorem registry_ids_distinct:
  "(distinct (map npc_id (entries g)) \<longrightarrow> distinct (map npc_id (entries (foldl applyOp g ops)))) \<and>
   distinct (map npc_id (entries (foldl applyOp (newGame :: 'a game) ops))) \<and>
   (npc_id ra = npc_id rb \<longrightarrow> entries (upsert rb (upsert ra (newGame :: 'b game))) = [rb])"
proof (intro conjI impI)
  assume "distinct (map npc_id (entries g))"
  then show "distinct (map npc_id (entries (foldl applyOp g ops)))"
    by (rule distinct_foldl_applyOp)
next
  have "distinct (map npc_id (entries (newGame :: 'a game)))"
    by (simp add: newGame_def entries_def)
  then show "distinct (map npc_id (entries (foldl applyOp (newGame :: 'a game) ops)))"
    by (rule distinct_foldl_applyOp)
next
  assume eq: "npc_id ra = npc_id rb"
  have 1: "entries (upsert ra (newGame :: 'b game)) = [ra]"
    by (simp add: upsert_new newGame_def entries_def)
  then have "npc_id rb \<in> npc_id ` set (entries (upsert ra (newGame :: 'b game)))"
    using eq by simp
  from upsert_old[OF this] 1 eq
  show "entries (upsert rb (upsert ra (newGame :: 'b game))) = [rb]"
    by simp
qed


theorem registry_ids_distinct_witness:
  "distinct (map npc_id (entries
     (upsert (newDraft\<lparr>npc_id := ''7'', name := ''A''\<rparr>) (newGame :: nat game)))) \<and>
   distinct (map npc_id (entries (foldl applyOp
     (upsert (newDraft\<lparr>npc_id := ''7'', name := ''A''\<rparr>) (newGame :: nat game))
     [Upsert (newDraft\<lparr>npc_id := ''8'', name := ''C''\<rparr>), Remove (NumId (SafeInteger 7)),
      Upsert (newDraft\<lparr>npc_id := ''8'', name := ''D''\<rparr>)]))) \<and>
   parseNpcBlocks [comment ''Type: NPC'', comment ''ID: 7'', comment ''Name: A'',
                   comment ''Type: NPC'', comment ''ID: 7'', comment ''Name: B''] None
   = [newDraft\<lparr>npc_id := ''7'', name := ''A''\<rparr>, newDraft\<lparr>npc_id := ''7'', name := ''B''\<rparr>] \<and>
   entries (upsert (newDraft\<lparr>npc_id := ''7'', name := ''B''\<rparr>)
     (upsert (newDraft\<lparr>npc_id := ''7'', name := ''A''\<rparr>) (newGame :: nat game)))
   = [newDraft\<lparr>npc_id := ''7'', name := ''B''\<rparr>]"
proof -
  define a where "a = newDraft\<lparr>npc_id := ''7'', name := ''A''\<rparr>"
  define b where "b = newDraft\<lparr>npc_id := ''7'', name := ''B''\<rparr>"
  define g7 :: "nat game" where "g7 = upsert a newGame"
  have h1: "distinct (map npc_id (entries g7))"
    unfolding g7_def a_def by code_simp
  have h2: "npc_id a = npc_id b"
    unfolding a_def b_def by simp
  have p: "parseNpcBlocks [comment ''Type: NPC'', comment ''ID: 7'', comment ''Name: A'',
                   comment ''Type: NPC'', comment ''ID: 7'', comment ''Name: B''] None = [a, b]"
    unfolding a_def b_def by code_simp
  note inst = registry_ids_distinct
    [where g = g7 and ra = a and rb = b and
       ops = "[Upsert (newDraft\<lparr>npc_id := ''8'', name := ''C''\<rparr>), Remove (NumId (SafeInteger 7)),
               Upsert (newDraft\<lparr>npc_id := ''8'', name := ''D''\<rparr>)]"]
  from inst h1 have 1: "distinct (map npc_id (entries (foldl applyOp g7
     [Upsert (newDraft\<lparr>npc_id := ''8'', name := ''C''\<rparr>), Remove (NumId (SafeInteger 7)),
      Upsert (newDraft\<lparr>npc_id := ''8'', name := ''D''\<rparr>)])))"
    by blast
  from inst h2 have 2: "entries (upsert b (upsert a (newGame :: nat game))) = [b]"
    by blast
  show ?thesis
    using h1 1 p 2 unfolding g7_def a_def b_def by blast
qed

section \<open>The paginator\<close>

lemma linesPerPage_pos: "0 < nat (linesPerPage contentsHeight lh)"
  by (simp add: linesPerPage_def)

lemma chunk_index:
  assumes "0 < n"
  shows "((j::nat) * n < len) = (j < (len + n - 1) div n)"
proof -
  have "(j < (len + n - 1) div n) = (Suc j \<le> (len + n - 1) div n)"
    by auto
  also have "\<dots> = (Suc j * n \<le> len + n - 1)"
    using assms by (simp only: less_eq_div_iff_mult_less_eq)
  also have "\<dots> = (j * n < len)"
    using assms by auto
  finally show ?thesis by simp
qed

lemma pagesLoop_chunks:
  assumes n: "0 < n"
  shows "pagesLoop lines n (j * n) acc =
     Some (acc @ map (\<lambda>k. take n (drop (k * n) lines)) [j..<(length lines + n - 1) div n])"
proof (induction "(length lines + n - 1) div n - j" arbitrary: j acc)
  case 0
  then have "\<not> j < (length lines + n - 1) div n" by simp
  then have "\<not> j * n < length lines" using chunk_index[OF n] by simp
  then show ?case using 0 by (subst pagesLoop.simps) simp
next
  case (Suc d)
  then have lt: "j < (length lines + n - 1) div n" by simp
  then have "j * n < length lines" using chunk_index[OF n] by simp
  then have "pagesLoop lines n (j * n) acc =
     pagesLoop lines n (Suc j * n) (acc @ [sliceArr lines (j * n) (j * n + n)])"
    by (subst pagesLoop.simps) (simp add: add.commute)
  also have "\<dots> = Some ((acc @ [sliceArr lines (j * n) (j * n + n)]) @
        map (\<lambda>k. take n (drop (k * n) lines)) [Suc j..<(length lines + n - 1) div n])"
    using Suc.hyps(2) by (intro Suc.hyps(1)) simp
  finally show ?case using lt by (simp add: sliceArr_def upt_conv_Cons)
qed

lemma concat_chunks: "concat (map (\<lambda>k. take n (drop (k * n) xs)) [0..<m]) = take (m * n) xs"
proof (induction m)
  case 0
  then show ?case by simp
next
  case (Suc m)
  have "Suc m * n = m * n + n" by simp
  then have "take (Suc m * n) xs = take (m * n) xs @ take n (drop (m * n) xs)"
    by (simp only: take_add)
  with Suc show ?case by simp
qed

lemma chunks_cover:
  assumes "0 < n"
  shows "length xs \<le> ((length xs + n - 1) div n) * n"
  using chunk_index[OF assms, of "(length xs + n - 1) div n" "length xs"] by simp

lemma paginate_eq:
  "paginate lines contentsHeight lh =
     Some \<lparr>pages = pagesOf (nat (linesPerPage contentsHeight lh)) lines, pageIdx = 0\<rparr>"
  using pagesLoop_chunks[OF linesPerPage_pos, of lines contentsHeight lh 0 "[]"]
  by (simp add: paginate_def pagesOf_def)

lemma pagesOf_props:
  assumes n: "0 < n"
  shows "concat (pagesOf n lines) = lines"
    and "length (pagesOf n lines) = (length lines + n - 1) div n"
    and "Suc k < length (pagesOf n lines) \<Longrightarrow> length (pagesOf n lines ! k) = n"
    and "p \<in> set (pagesOf n lines) \<Longrightarrow> p \<noteq> [] \<and> length p \<le> n"
    and "length lines = n \<Longrightarrow> pagesOf n lines = [lines]"
    and "length lines = n + 1 \<Longrightarrow> pagesOf n lines = [take n lines, [last lines]]"
proof -
  show "concat (pagesOf n lines) = lines"
    using chunks_cover[OF n, of lines] by (simp add: pagesOf_def concat_chunks)
  show len: "length (pagesOf n lines) = (length lines + n - 1) div n"
    by (simp add: pagesOf_def)
  show "length (pagesOf n lines ! k) = n" if "Suc k < length (pagesOf n lines)"
  proof -
    from that have "Suc k * n < length lines"
      using chunk_index[OF n, of "Suc k" "length lines"] by (simp add: len)
    moreover from that have "k < (length lines + n - 1) div n" by (simp add: len)
    ultimately show ?thesis by (simp add: pagesOf_def)
  qed
  show "p \<noteq> [] \<and> length p \<le> n" if "p \<in> set (pagesOf n lines)"
  proof -
    from that obtain k where k: "k < (length lines + n - 1) div n" "p = take n (drop (k * n) lines)"
      by (auto simp: pagesOf_def)
    then have "k * n < length lines" using chunk_index[OF n] by simp
    with k n show ?thesis by simp
  qed
  show "pagesOf n lines = [lines]" if "length lines = n"
  proof -
    have "(n + n - 1) div n = 1" using n by (simp add: div_eq_dividend_iff Suc_leI le_div_geq)
    then show ?thesis using that by (simp add: pagesOf_def)
  qed
  show "pagesOf n lines = [take n lines, [last lines]]" if "length lines = n + 1"
  proof -
    have "(n + 1 + n - 1) div n = 2" using n by simp
    moreover have "drop n lines = [last lines]"
      using that by (metis Suc_eq_plus1 append_butlast_last_id append_eq_conv_conj length_0_conv
          length_butlast diff_Suc_1 Zero_not_Suc)
    ultimately show ?thesis using that n by (simp add: pagesOf_def eval_nat_numeral)
  qed
qed


text \<open>
  Claim C6. With a positive line height, \<^verbatim>\<open>linesPerPage\<close> is
  \<open>max 1 (contentsHeight div lh - 1)\<close>, the loop of \<^verbatim>\<open>setText\<close> returns, and its pages
  are the lines cut into consecutive chunks of that size, in order, the rest in the
  last page: all pages but the last are full, none is empty, and together they are the
  lines. The page indicator is drawn exactly when there is more than one page. Lines
  that number exactly \<^verbatim>\<open>linesPerPage\<close> make one page and no indicator; one line more
  makes two pages, the second with the last line, and the indicator.
\<close>

theorem paginate_slices_lines:
  "0 < lh \<and> n = nat (linesPerPage contentsHeight lh) \<longrightarrow>
     int n = max 1 (contentsHeight div lh - 1) \<and>
     setText tw maxW contentsHeight lh str = paginate (wrapLines tw maxW str) contentsHeight lh \<and>
     (\<exists>w. paginate lines contentsHeight lh = Some w \<and> pageIdx w = 0 \<and>
        pages w = map (\<lambda>k. take n (drop (k * n) lines)) [0..<(length lines + n - 1) div n] \<and>
        concat (pages w) = lines \<and>
        (\<forall>k. Suc k < length (pages w) \<longrightarrow> length (pages w ! k) = n) \<and>
        (\<forall>p\<in>set (pages w). p \<noteq> [] \<and> length p \<le> n) \<and>
        footerShown w = (1 < length (pages w)) \<and>
        (length lines = n \<longrightarrow> pages w = [lines] \<and> \<not> footerShown w) \<and>
        (length lines = n + 1 \<longrightarrow> pages w = [take n lines, [last lines]] \<and> footerShown w))"
proof
  assume a: "0 < lh \<and> n = nat (linesPerPage contentsHeight lh)"
  then have n: "0 < n" using linesPerPage_pos[of contentsHeight lh] by simp
  define w where "w = \<lparr>pages = pagesOf n lines, pageIdx = 0\<rparr>"
  have p: "paginate lines contentsHeight lh = Some w"
    using a by (simp add: w_def paginate_eq)
  have pw: "pages w = pagesOf n lines" "pageIdx w = 0"
    by (simp_all add: w_def)
  note props = pagesOf_props[OF n, where lines = lines]
  have 1: "int n = max 1 (contentsHeight div lh - 1)"
    using a by (simp add: linesPerPage_def)
  have 2: "setText tw maxW contentsHeight lh str = paginate (wrapLines tw maxW str) contentsHeight lh"
    by (simp add: setText_def)
  have 3: "pages w = map (\<lambda>k. take n (drop (k * n) lines)) [0..<(length lines + n - 1) div n]"
    by (simp add: pw pagesOf_def)
  have 4: "concat (pages w) = lines"
    by (simp add: pw props(1))
  have 5: "\<forall>k. Suc k < length (pages w) \<longrightarrow> length (pages w ! k) = n"
    by (simp add: pw props(3))
  have 6: "\<forall>p\<in>set (pages w). p \<noteq> [] \<and> length p \<le> n"
    using props(4) by (simp add: pw)
  have 7: "footerShown w = (1 < length (pages w))"
    by (simp add: footerShown_def)
  have 8: "length lines = n \<longrightarrow> pages w = [lines] \<and> \<not> footerShown w"
    using props(5) by (simp add: pw footerShown_def)
  have 9: "length lines = n + 1 \<longrightarrow> pages w = [take n lines, [last lines]] \<and> footerShown w"
    using props(6) by (simp add: pw footerShown_def)
  from p pw(2) 3 4 5 6 7 8 9
  have "\<exists>w. paginate lines contentsHeight lh = Some w \<and> pageIdx w = 0 \<and>
        pages w = map (\<lambda>k. take n (drop (k * n) lines)) [0..<(length lines + n - 1) div n] \<and>
        concat (pages w) = lines \<and>
        (\<forall>k. Suc k < length (pages w) \<longrightarrow> length (pages w ! k) = n) \<and>
        (\<forall>p\<in>set (pages w). p \<noteq> [] \<and> length p \<le> n) \<and>
        footerShown w = (1 < length (pages w)) \<and>
        (length lines = n \<longrightarrow> pages w = [lines] \<and> \<not> footerShown w) \<and>
        (length lines = n + 1 \<longrightarrow> pages w = [take n lines, [last lines]] \<and> footerShown w)"
    by blast
  with 1 2 show "int n = max 1 (contentsHeight div lh - 1) \<and>
     setText tw maxW contentsHeight lh str = paginate (wrapLines tw maxW str) contentsHeight lh \<and>
     (\<exists>w. paginate lines contentsHeight lh = Some w \<and> pageIdx w = 0 \<and>
        pages w = map (\<lambda>k. take n (drop (k * n) lines)) [0..<(length lines + n - 1) div n] \<and>
        concat (pages w) = lines \<and>
        (\<forall>k. Suc k < length (pages w) \<longrightarrow> length (pages w ! k) = n) \<and>
        (\<forall>p\<in>set (pages w). p \<noteq> [] \<and> length p \<le> n) \<and>
        footerShown w = (1 < length (pages w)) \<and>
        (length lines = n \<longrightarrow> pages w = [lines] \<and> \<not> footerShown w) \<and>
        (length lines = n + 1 \<longrightarrow> pages w = [take n lines, [last lines]] \<and> footerShown w))"
    by blast
qed


theorem paginate_slices_lines_witness:
  "(0::int) < 36 \<and> (2::nat) = nat (linesPerPage 108 36) \<and>
   paginate [''a'', ''b''] 108 36 = Some \<lparr>pages = [[''a'', ''b'']], pageIdx = 0\<rparr> \<and>
   \<not> footerShown \<lparr>pages = [[''a'', ''b'']], pageIdx = 0\<rparr> \<and>
   paginate [''a'', ''b'', ''c''] 108 36 = Some \<lparr>pages = [[''a'', ''b''], [''c'']], pageIdx = 0\<rparr> \<and>
   footerShown \<lparr>pages = [[''a'', ''b''], [''c'']], pageIdx = 0\<rparr>"
proof -
  have h: "(0::int) < 36 \<and> (2::nat) = nat (linesPerPage 108 36)"
    by (simp add: linesPerPage_def)
  have e2: "paginate [''a'', ''b''] 108 36 = Some \<lparr>pages = [[''a'', ''b'']], pageIdx = 0\<rparr>"
    by code_simp
  have e3: "paginate [''a'', ''b'', ''c''] 108 36
      = Some \<lparr>pages = [[''a'', ''b''], [''c'']], pageIdx = 0\<rparr>"
    by code_simp
  from paginate_slices_lines
    [where lh = 36 and n = 2 and contentsHeight = 108 and lines = "[''a'', ''b'']"
       and tw = "length :: string \<Rightarrow> nat" and maxW = 5 and str = "''a b''"] h
  obtain w2 where w2: "paginate [''a'', ''b''] 108 36 = Some w2"
    "length [''a'', ''b''] = 2 \<longrightarrow> pages w2 = [[''a'', ''b'']] \<and> \<not> footerShown w2"
    by blast
  from paginate_slices_lines
    [where lh = 36 and n = 2 and contentsHeight = 108 and lines = "[''a'', ''b'', ''c'']"
       and tw = "length :: string \<Rightarrow> nat" and maxW = 5 and str = "''a b c''"] h
  obtain w3 where w3: "paginate [''a'', ''b'', ''c''] 108 36 = Some w3"
    "length [''a'', ''b'', ''c''] = 2 + 1 \<longrightarrow>
       pages w3 = [take 2 [''a'', ''b'', ''c''], [last [''a'', ''b'', ''c'']]] \<and> footerShown w3"
    by blast
  have f2: "\<not> footerShown \<lparr>pages = [[''a'', ''b'']], pageIdx = 0\<rparr>"
    using w2 e2 by simp
  have f3: "footerShown \<lparr>pages = [[''a'', ''b''], [''c'']], pageIdx = 0\<rparr>"
    using w3 e3 by simp
  from h e2 f2 e3 f3 show ?thesis by blast
qed

section \<open>The word wrap\<close>

lemma lineOfWords_simps [simp]:
  "lineOfWords [] = []" "lineOfWords (ws @ [w]) = lineOfWords ws @ w @ '' ''"
  "lineOfWords [w] = w @ '' ''"
  by (simp_all add: lineOfWords_def)

lemma lineOfWords_empty [simp]: "(lineOfWords ws = []) = (ws = [])"
  by (cases ws) (simp_all add: lineOfWords_def)

lemma lineOfWords_contains:
  "v \<in> set g \<Longrightarrow> \<exists>s u. lineOfWords g = s @ (v @ '' '') @ u"
proof -
  assume "v \<in> set g"
  then obtain a b where "g = a @ v # b" by (auto simp: in_set_conv_decomp)
  then have "lineOfWords g = lineOfWords a @ (v @ '' '') @ lineOfWords b"
    by (simp add: lineOfWords_def)
  then show ?thesis by blast
qed

text \<open>The loop on the lines and the loop on the groups of words go in step.\<close>

lemma wrapStep_groups:
  assumes "gs \<noteq> []"
  shows "wrapStep tw maxW (map lineOfWords gs, lineOfWords (last gs)) w =
         (map lineOfWords (groupStep tw maxW gs w), lineOfWords (last (groupStep tw maxW gs w)))"
proof (cases "tw (lineOfWords (last gs @ [w])) > maxW \<and> last gs \<noteq> []")
  case True
  then show ?thesis by (simp add: wrapStep_def groupStep_def Let_def)
next
  case False
  have "(map lineOfWords gs)[length gs - 1 := lineOfWords (last gs) @ w @ '' '']
      = map lineOfWords (butlast gs) @ [lineOfWords (last gs) @ w @ '' '']"
    using assms by (induction gs rule: rev_induct) (simp_all add: list_update_append)
  with False show ?thesis by (auto simp: wrapStep_def groupStep_def Let_def)
qed

lemma groupStep_nonempty: "groupStep tw maxW gs w \<noteq> []"
  by (simp add: groupStep_def)

lemma foldl_wrapStep_groups:
  "gs \<noteq> [] \<Longrightarrow>
   foldl (wrapStep tw maxW) (map lineOfWords gs, lineOfWords (last gs)) ws =
     (map lineOfWords (foldl (groupStep tw maxW) gs ws),
      lineOfWords (last (foldl (groupStep tw maxW) gs ws)))"
proof (induction ws arbitrary: gs)
  case Nil
  then show ?case by simp
next
  case (Cons w ws)
  show ?case
    using Cons.IH[OF groupStep_nonempty, of tw maxW gs w]
    by (simp add: wrapStep_groups[OF Cons.prems])
qed

lemma wrapLines_groups:
  "wrapLines tw maxW str =
     map lineOfWords (foldl (groupStep tw maxW) [[]] (split str (CHR '' '')))"
  using foldl_wrapStep_groups[of "[[]]" tw maxW "split str (CHR '' '')"]
  by (simp add: wrapLines_def)

text \<open>What the loop on the groups keeps.\<close>

lemma groupStep_concat: "gs \<noteq> [] \<Longrightarrow> concat (groupStep tw maxW gs w) = concat gs @ [w]"
  by (induction gs rule: rev_induct) (simp_all add: groupStep_def)

lemma groupStep_all_nonempty:
  "groups_ok gs \<Longrightarrow> \<forall>g\<in>set (groupStep tw maxW gs w). g \<noteq> []"
  unfolding groups_ok_def
  by (induction gs rule: rev_induct) (auto simp: groupStep_def)

lemma groupStep_ok: "groups_ok gs \<Longrightarrow> groups_ok (groupStep tw maxW gs w)"
  using groupStep_all_nonempty[of gs tw maxW w]
  by (auto simp: groups_ok_def groupStep_nonempty dest: in_set_butlastD)

lemma foldl_groupStep_ok: "groups_ok gs \<Longrightarrow> groups_ok (foldl (groupStep tw maxW) gs ws)"
  by (induction ws arbitrary: gs) (simp_all add: groupStep_ok)

lemma foldl_groupStep_all_nonempty:
  assumes "groups_ok gs" "ws \<noteq> []"
  shows "\<forall>g\<in>set (foldl (groupStep tw maxW) gs ws). g \<noteq> []"
proof -
  from assms(2) obtain ws' w where ws: "ws = ws' @ [w]"
    by (cases ws rule: rev_cases) auto
  have "groups_ok (foldl (groupStep tw maxW) gs ws')"
    using assms(1) by (rule foldl_groupStep_ok)
  then show ?thesis
    unfolding ws by (simp add: groupStep_all_nonempty)
qed

lemma foldl_groupStep_concat:
  "groups_ok gs \<Longrightarrow> concat (foldl (groupStep tw maxW) gs ws) = concat gs @ ws"
proof (induction ws arbitrary: gs)
  case Nil
  then show ?case by simp
next
  case (Cons w ws)
  from Cons.prems have "gs \<noteq> []" by (simp add: groups_ok_def)
  then show ?case
    using Cons.IH[OF groupStep_ok[OF Cons.prems]] by (simp add: groupStep_concat)
qed

lemma groupStep_wide_alone:
  assumes mono: "\<forall>s t u. tw t \<le> tw (s @ t @ u)"
    and ne: "gs \<noteq> []" and inv: "wide_alone tw maxW gs"
  shows "wide_alone tw maxW (groupStep tw maxW gs w)"
proof (cases "tw (lineOfWords (last gs @ [w])) > maxW \<and> last gs \<noteq> []")
  case True
  then show ?thesis using inv by (auto simp: groupStep_def wide_alone_def)
next
  case False
  have last_ok: "last gs @ [w] = [v]" if v: "v \<in> set (last gs @ [w])" and wide: "maxW < tw (v @ '' '')" for v
  proof (cases "last gs = []")
    case True
    with v show ?thesis by simp
  next
    case ne': False
    with False have le: "tw (lineOfWords (last gs @ [w])) \<le> maxW" by auto
    from lineOfWords_contains[OF v] obtain s u
      where "lineOfWords (last gs @ [w]) = s @ (v @ '' '') @ u" by blast
    with mono have "tw (v @ '' '') \<le> tw (lineOfWords (last gs @ [w]))" by metis
    with le wide show ?thesis by simp
  qed
  have set_eq: "set (groupStep tw maxW gs w) = set (butlast gs) \<union> {last gs @ [w]}"
    using False by (auto simp: groupStep_def)
  have "set (butlast gs) \<subseteq> set gs" by (meson in_set_butlastD subsetI)
  with inv have "\<forall>g\<in>set (butlast gs). \<forall>v\<in>set g. maxW < tw (v @ '' '') \<longrightarrow> g = [v]"
    by (auto simp: wide_alone_def)
  with last_ok show ?thesis
    unfolding wide_alone_def set_eq by blast
qed

lemma foldl_groupStep_wide_alone:
  assumes mono: "\<forall>s t u. tw t \<le> tw (s @ t @ u)"
  shows "groups_ok gs \<Longrightarrow> wide_alone tw maxW gs \<Longrightarrow>
         wide_alone tw maxW (foldl (groupStep tw maxW) gs ws)"
proof (induction ws arbitrary: gs)
  case Nil
  then show ?case by simp
next
  case (Cons w ws)
  from Cons.prems have ne: "gs \<noteq> []" by (simp add: groups_ok_def)
  have "wide_alone tw maxW (groupStep tw maxW gs w)"
    using mono ne Cons.prems(2) by (rule groupStep_wide_alone)
  with Cons.IH[OF groupStep_ok[OF Cons.prems(1)]] show ?case by simp
qed

lemma split_nonempty: "split s c \<noteq> []"
  by (induction s) (simp_all split: list.splits)


text \<open>
  Claim C10. A word that meets an empty current line is put on it whatever its width.
  So every wrapped line holds at least one word of the text: the lines are the words
  of the text, in order, in groups none of which is empty, each word followed by a
  space; there is a line, and no line is empty. And when no string is narrower than a
  part of it, a word that is wider than the line by itself has its line to itself.
\<close>

theorem wrap_places_word_on_empty_line:
  "wrapStep tw maxW (lines, []) w = (lines[length lines - 1 := w @ '' ''], w @ '' '') \<and>
   (\<exists>gs. wrapLines tw maxW str = map lineOfWords gs \<and>
         concat gs = split str (CHR '' '') \<and>
         (\<forall>g\<in>set gs. g \<noteq> []) \<and>
         ((\<forall>s t u. tw t \<le> tw (s @ t @ u)) \<longrightarrow>
            (\<forall>g\<in>set gs. \<forall>v\<in>set g. maxW < tw (v @ '' '') \<longrightarrow> g = [v]))) \<and>
   wrapLines tw maxW str \<noteq> [] \<and>
   (\<forall>l\<in>set (wrapLines tw maxW str). l \<noteq> []) \<and>
   ((\<forall>s t u. tw t \<le> tw (s @ t @ u)) \<and> v \<in> set (split str (CHR '' '')) \<and> maxW < tw (v @ '' '') \<longrightarrow>
      v @ '' '' \<in> set (wrapLines tw maxW str))"
proof -
  define gs where "gs = foldl (groupStep tw maxW) [[]] (split str (CHR '' ''))"
  have ok0: "groups_ok [[]]" by (simp add: groups_ok_def)
  have lines: "wrapLines tw maxW str = map lineOfWords gs"
    unfolding gs_def by (rule wrapLines_groups)
  have words: "concat gs = split str (CHR '' '')"
    unfolding gs_def using foldl_groupStep_concat[OF ok0] by simp
  have ne: "\<forall>g\<in>set gs. g \<noteq> []"
    unfolding gs_def using ok0 split_nonempty by (rule foldl_groupStep_all_nonempty)
  have gs_ne: "gs \<noteq> []"
    unfolding gs_def
    using foldl_groupStep_ok[OF ok0, of tw maxW "split str (CHR '' '')"]
    by (simp add: groups_ok_def)
  have alone: "\<forall>g\<in>set gs. \<forall>v\<in>set g. maxW < tw (v @ '' '') \<longrightarrow> g = [v]"
    if mono: "\<forall>s t u. tw t \<le> tw (s @ t @ u)"
  proof -
    have "wide_alone tw maxW [[]]" by (simp add: wide_alone_def)
    with mono ok0 have "wide_alone tw maxW gs"
      unfolding gs_def by (rule foldl_groupStep_wide_alone)
    then show ?thesis by (simp add: wide_alone_def)
  qed
  have 1: "wrapStep tw maxW (lines, []) w = (lines[length lines - 1 := w @ '' ''], w @ '' '')"
    by (simp add: wrapStep_def Let_def)
  have 2: "\<exists>gs. wrapLines tw maxW str = map lineOfWords gs \<and>
         concat gs = split str (CHR '' '') \<and>
         (\<forall>g\<in>set gs. g \<noteq> []) \<and>
         ((\<forall>s t u. tw t \<le> tw (s @ t @ u)) \<longrightarrow>
            (\<forall>g\<in>set gs. \<forall>v\<in>set g. maxW < tw (v @ '' '') \<longrightarrow> g = [v]))"
    using lines words ne alone by blast
  have 3: "wrapLines tw maxW str \<noteq> []"
    using lines gs_ne by simp
  have 4: "\<forall>l\<in>set (wrapLines tw maxW str). l \<noteq> []"
    using ne by (auto simp: lines)
  have 5: "v @ '' '' \<in> set (wrapLines tw maxW str)"
    if mono: "\<forall>s t u. tw t \<le> tw (s @ t @ u)" and v: "v \<in> set (split str (CHR '' ''))"
      and wide: "maxW < tw (v @ '' '')"
  proof -
    from v obtain g where g: "g \<in> set gs" "v \<in> set g"
      unfolding words[symmetric] by auto
    with alone[OF mono] wide have "g = [v]" by blast
    with g(1) have "lineOfWords [v] \<in> set (map lineOfWords gs)" by force
    then show ?thesis by (simp add: lines)
  qed
  from 1 2 3 4 5 show ?thesis by blast
qed


theorem wrap_places_word_on_empty_line_witness:
  "(\<forall>s t u. length (t :: string) \<le> length (s @ t @ u)) \<and>
   ''toolongword'' \<in> set (split ''toolongword a b'' (CHR '' '')) \<and>
   (5::nat) < length (''toolongword'' @ '' '') \<and>
   ''toolongword'' @ '' '' \<in> set (wrapLines length (5::nat) ''toolongword a b'') \<and>
   wrapLines length (5::nat) ''toolongword a b'' = [''toolongword '', ''a b '']"
proof -
  have mono: "\<forall>s t u. length (t :: string) \<le> length (s @ t @ u)"
    by simp
  have v: "''toolongword'' \<in> set (split ''toolongword a b'' (CHR '' ''))"
    by code_simp
  have wide: "(5::nat) < length (''toolongword'' @ '' '')"
    by simp
  have e: "wrapLines length (5::nat) ''toolongword a b'' = [''toolongword '', ''a b '']"
    by code_simp
  from wrap_places_word_on_empty_line
    [where tw = "length :: string \<Rightarrow> nat" and maxW = 5 and str = "''toolongword a b''"
       and v = "''toolongword''"] mono v wide
  have m: "''toolongword'' @ '' '' \<in> set (wrapLines length (5::nat) ''toolongword a b'')"
    by blast
  from mono v wide m e show ?thesis by blast
qed

end
